theory Spec2Isabelle
  imports Main
begin

section \<open>Data model (internal/models, internal/discovery)\<close>

text \<open>
  The Go structs are records. Field names carry the struct's name as a prefix, since
  several structs share the field names ID, Name and Space. Purely descriptive fields
  that no modelled function reads (branch, repository, hooks, timestamps, ...) are
  left out; every function below copies whole records, so they would be carried
  unchanged. A Go \<open>*string\<close> is a \<open>string option\<close> (nil is \<open>None\<close>).
\<close>

record Space =
  space_ID :: string
  space_Name :: string
  space_Description :: string
  space_ParentSpace :: "string option"
  space_InheritEntities :: bool
  space_Labels :: "string list"

record ContextAttachment =
  catt_ID :: string
  catt_ContextID :: string
  catt_Priority :: int

record PolicyAttachment =
  patt_ID :: string
  patt_PolicyID :: string

record AWSIntegrationAttachment =
  awsatt_IntegrationID :: string
  awsatt_Read :: bool
  awsatt_Write :: bool

record AzureIntegrationAttachment =
  azatt_IntegrationID :: string
  azatt_Read :: bool
  azatt_Write :: bool
  azatt_SubscriptionID :: "string option"

text \<open>
  Modelled from the spec: the two fields of \<open>Stack\<close> that hold its integration
  attachments (\<open>AttachedAWSIntegrations\<close>, \<open>AttachedAzureIntegrations\<close>, "per-integration
  attachment records"). \<open>DiscoverAll\<close> appends to them, and the declarations of the
  struct at hand do not list them; the attachment records themselves are declared.
\<close>

record Stack =
  stack_ID :: string
  stack_Name :: string
  stack_Space :: string
  stack_VendorType :: string
  stack_Autodeploy :: bool
  stack_IsDisabled :: bool
  stack_ManagesStateFile :: bool
  stack_ExternalStateAccessEnabled :: bool
  stack_AttachedContexts :: "ContextAttachment list"
  stack_AttachedPolicies :: "PolicyAttachment list"
  stack_AttachedAWSIntegrations :: "AWSIntegrationAttachment list"
  stack_AttachedAzureIntegrations :: "AzureIntegrationAttachment list"

record ConfigElement =
  cfg_ID :: string
  cfg_Type :: string
  cfg_Value :: string
  cfg_WriteOnly :: bool

record Context =
  ctx_ID :: string
  ctx_Name :: string
  ctx_Space :: string
  ctx_Config :: "ConfigElement list"

record Policy =
  policy_ID :: string
  policy_Name :: string
  policy_Space :: string
  policy_Type :: string
  policy_Body :: string

record AWSIntegration =
  aws_ID :: string
  aws_Name :: string
  aws_RoleARN :: string
  aws_Space :: string

record AzureIntegration =
  azure_ID :: string
  azure_Name :: string
  azure_TenantID :: string
  azure_Space :: string

record Manifest =
  SourceURL :: string
  Spaces :: "Space list"
  Stacks :: "Stack list"
  Contexts :: "Context list"
  Policies :: "Policy list"
  AWSIntegrations :: "AWSIntegration list"
  AzureIntegrations :: "AzureIntegration list"

text \<open>
  Go errors. \<open>Wrap msg e\<close> is \<open>fmt.Errorf(msg + ": %w", e)\<close>; \<open>StatusErr msg n\<close> is an
  error whose text is formatted from a status code or a count.
\<close>

datatype error = Err string | Wrap string error | StatusErr string int

section \<open>Raw state streaming (internal/client/client.go)\<close>

text \<open>
  The HTTP transport is the environment: building a request may fail, sending it may
  fail, and otherwise a response with a status code arrives. The body is an opaque
  byte string.
\<close>

record http_response =
  StatusCode :: int
  ContentLength :: int
  Body :: string

record http_env =
  newRequest :: "string \<Rightarrow> string \<Rightarrow> error option"
  doRequest :: "string \<Rightarrow> string \<Rightarrow> error + http_response"

definition StreamStateFromURL :: "http_env \<Rightarrow> string \<Rightarrow> error + (string \<times> int)" where
  "StreamStateFromURL h downloadURL =
     (case newRequest h ''GET'' downloadURL of
        Some e \<Rightarrow> Inl (Wrap ''failed to create download request'' e)
      | None \<Rightarrow>
         (case doRequest h ''GET'' downloadURL of
            Inl e \<Rightarrow> Inl (Wrap ''failed to download state'' e)
          | Inr resp \<Rightarrow>
              if StatusCode resp \<noteq> 200
              then Inl (StatusErr ''download returned status'' (StatusCode resp))
              else Inr (Body resp, ContentLength resp)))"

definition UploadStateToURL :: "http_env \<Rightarrow> string \<Rightarrow> string \<Rightarrow> int \<Rightarrow> error option" where
  "UploadStateToURL h uploadURL dat contentLength =
     (case newRequest h ''PUT'' uploadURL of
        Some e \<Rightarrow> Some (Wrap ''failed to create upload request'' e)
      | None \<Rightarrow>
         (case doRequest h ''PUT'' uploadURL of
            Inl e \<Rightarrow> Some (Wrap ''failed to upload state'' e)
          | Inr resp \<Rightarrow>
              if StatusCode resp \<noteq> 200 \<and> StatusCode resp \<noteq> 201 \<and> StatusCode resp \<noteq> 204
              then Some (StatusErr ''upload returned status'' (StatusCode resp))
              else None))"

text \<open>An environment in which every request is built and answered with one fixed status.\<close>

definition answering :: "int \<Rightarrow> http_env" where
  "answering code =
     \<lparr>newRequest = (\<lambda>m u. None),
      doRequest = (\<lambda>m u. Inr \<lparr>StatusCode = code, ContentLength = 3, Body = ''{}''\<rparr>)\<rparr>"

section \<open>Space filter resolution (cmd/spacebridge, state commands)\<close>

text \<open>
  \<open>spaceByID\<close> is the Go map filled by a loop over the discovered spaces: a later
  space with the same id overwrites an earlier one.
\<close>

definition spaceByID :: "Space list \<Rightarrow> (string \<rightharpoonup> Space)" where
  "spaceByID spaces = foldl (\<lambda>m sp. m(space_ID sp \<mapsto> sp)) Map.empty spaces"

text \<open>
  The loop \<open>for i := len(filter) - 1; i >= 0; i--\<close>. The counter of the model is
  \<open>i + 1\<close>, so the loop ends at 0; \<open>filter ! i\<close> is always in range.
\<close>

fun scanHyphens :: "(string \<rightharpoonup> Space) \<Rightarrow> string \<Rightarrow> nat \<Rightarrow> Space option" where
  "scanHyphens m flt 0 = None"
| "scanHyphens m flt (Suc i) =
     (if flt ! i = CHR ''-''
      then (case m (drop (Suc i) flt) of
              Some sp \<Rightarrow> Some sp
            | None \<Rightarrow> scanHyphens m flt i)
      else scanHyphens m flt i)"

text \<open>
  \<open>resolveSpaceFilter\<close>; its first argument is the outcome of \<open>svc.DiscoverSpaces\<close>.
  The result is the pair (space id, display name).
\<close>

definition resolveSpaceFilter :: "error + Space list \<Rightarrow> string \<Rightarrow> error + (string \<times> string)" where
  "resolveSpaceFilter discovered flt =
     (case discovered of
        Inl e \<Rightarrow> Inl (Wrap ''failed to discover spaces'' e)
      | Inr spaces \<Rightarrow>
         (case spaceByID spaces flt of
            Some sp \<Rightarrow> Inr (space_ID sp, space_Name sp)
          | None \<Rightarrow>
             (case find (\<lambda>sp. space_Name sp = flt) spaces of
                Some sp \<Rightarrow> Inr (space_ID sp, space_Name sp)
              | None \<Rightarrow>
                 (case scanHyphens (spaceByID spaces) flt (length flt) of
                    Some sp \<Rightarrow> Inr (space_ID sp, space_Name sp)
                  | None \<Rightarrow> Inl (Err (''space not found: '' @ flt))))))"

text \<open>A space given by id, name and parent only.\<close>

definition mkSpace :: "string \<Rightarrow> string \<Rightarrow> string option \<Rightarrow> Space" where
  "mkSpace i n p =
     \<lparr>space_ID = i, space_Name = n, space_Description = [], space_ParentSpace = p,
      space_InheritEntities = False, space_Labels = []\<rparr>"

text \<open>
  Rule (3) the way the specification words it: only the last hyphen of the token is
  looked at, and the suffix after it is tested against the known space ids.
\<close>

definition lastHyphenSuffix :: "string \<Rightarrow> string option" where
  "lastHyphenSuffix flt =
     (if CHR ''-'' \<in> set flt then Some (rev (takeWhile (\<lambda>c. c \<noteq> CHR ''-'') (rev flt))) else None)"

section \<open>State migration (cmd/spacebridge, state migrate)\<close>

text \<open>
  \<open>IsTerraform\<close> as in the Stack model that knows OpenTofu; an older copy of the model
  in the repository lists only Terraform and Terragrunt. No theorem below depends on
  which vendors are in the list.
\<close>

definition IsTerraform :: "Stack \<Rightarrow> bool" where
  "IsTerraform s =
     (stack_VendorType s = ''StackConfigVendorTerraform'' \<or>
      stack_VendorType s = ''StackConfigVendorOpenTofu'' \<or>
      stack_VendorType s = ''StackConfigVendorTerragrunt'')"

definition friendlyVendorType :: "string \<Rightarrow> string" where
  "friendlyVendorType vendorType =
     (if vendorType = ''StackConfigVendorTofu'' then ''Tofu''
      else if vendorType = ''StackConfigVendorTerragrunt'' then ''Terragrunt''
      else if vendorType = ''StackConfigVendorAnsible'' then ''Ansible''
      else if vendorType = ''StackConfigVendorKubernetes'' then ''Kubernetes''
      else if vendorType = ''StackConfigVendorCloudFormation'' then ''CloudFormation''
      else if vendorType = ''StackConfigVendorPulumi'' then ''Pulumi''
      else vendorType)"

text \<open>The inline loop that keeps the stacks whose owning space is the resolved id.\<close>

definition stacksOfSpace :: "string \<Rightarrow> Stack list \<Rightarrow> Stack list" where
  "stacksOfSpace spaceID stacks = filter (\<lambda>stack. stack_Space stack = spaceID) stacks"

text \<open>\<open>destStackMap\<close>: the Go map from name to destination stack, filled in list order.\<close>

definition destStackMap :: "Stack list \<Rightarrow> (string \<rightharpoonup> Stack)" where
  "destStackMap destStacks = foldl (\<lambda>m stack. m(stack_Name stack \<mapsto> stack)) Map.empty destStacks"

record migrationCandidate =
  Source :: Stack
  Dest :: Stack

record classification =
  candidates :: "migrationCandidate list"
  skipped :: "string list"
  notInDest :: "string list"
  noAccess :: "string list"

definition noStacks :: classification where
  "noStacks = \<lparr>candidates = [], skipped = [], notInDest = [], noAccess = []\<rparr>"

text \<open>The classification loop of \<open>runStateMigrate\<close>; each \<open>continue\<close> ends one step.\<close>

fun classifyStacks :: "(string \<rightharpoonup> Stack) \<Rightarrow> Stack list \<Rightarrow> classification \<Rightarrow> classification" where
  "classifyStacks m [] acc = acc"
| "classifyStacks m (stack # rest) acc =
     (if \<not> stack_ManagesStateFile stack then
        classifyStacks m rest (acc\<lparr>skipped := skipped acc @ [stack_Name stack @ '' (self-managed state)'']\<rparr>)
      else if \<not> IsTerraform stack then
        classifyStacks m rest
          (acc\<lparr>skipped := skipped acc @
             [stack_Name stack @ '' ('' @ friendlyVendorType (stack_VendorType stack) @ '')'']\<rparr>)
      else if \<not> stack_ExternalStateAccessEnabled stack then
        classifyStacks m rest (acc\<lparr>noAccess := noAccess acc @ [stack_Name stack]\<rparr>)
      else
        (case m (stack_Name stack) of
           None \<Rightarrow> classifyStacks m rest (acc\<lparr>notInDest := notInDest acc @ [stack_Name stack]\<rparr>)
         | Some destStack \<Rightarrow>
             classifyStacks m rest
               (acc\<lparr>candidates := candidates acc @ [\<lparr>Source = stack, Dest = destStack\<rparr>]\<rparr>)))"

text \<open>
  The transfer loop talks to the two accounts and to the pre-signed locations. Every
  call it makes is logged, and what the environment answers may depend on all calls
  made before (the log so far), so the environment's own state needs no model.
  \<open>Call_Close\<close> is \<open>stateReader.Close()\<close>.
\<close>

datatype call =
    Call_GetStateDownloadURL string
  | Call_GetStateUploadURL string
  | Call_StreamStateFromURL string
  | Call_UploadStateToURL string int
  | Call_Close
  | Call_LockStack string
  | Call_ImportManagedState string string
  | Call_UnlockStack string

record StateUploadResult =
  upload_URL :: string
  upload_ObjectID :: string

record transfer_env =
  getStateDownloadURL :: "call list \<Rightarrow> string \<Rightarrow> error + string"
  getStateUploadURL :: "call list \<Rightarrow> string \<Rightarrow> error + StateUploadResult"
  http :: "call list \<Rightarrow> http_env"
  lockStack :: "call list \<Rightarrow> string \<Rightarrow> error option"
  importManagedState :: "call list \<Rightarrow> string \<Rightarrow> string \<Rightarrow> error option"
  unlockStack :: "call list \<Rightarrow> string \<Rightarrow> error option"

record loop_state =
  calls :: "call list"
  successCount :: nat
  failCount :: nat

text \<open>\<open>failCount++; continue\<close> and \<open>successCount++\<close>, with the log as it stands then.\<close>

definition failed :: "loop_state \<Rightarrow> call list \<Rightarrow> loop_state" where
  "failed st log = st\<lparr>calls := log, failCount := failCount st + 1\<rparr>"

definition succeeded :: "loop_state \<Rightarrow> call list \<Rightarrow> loop_state" where
  "succeeded st log = st\<lparr>calls := log, successCount := successCount st + 1\<rparr>"

text \<open>
  The body of the loop over the candidates. The outcome of the unlock calls is read
  from the environment and, as in the source, changes nothing.
\<close>

definition migrateOne :: "transfer_env \<Rightarrow> migrationCandidate \<Rightarrow> loop_state \<Rightarrow> loop_state" where
  "migrateOne env c st =
     (let srcID = stack_ID (Source c); dstID = stack_ID (Dest c);
          l1 = calls st @ [Call_GetStateDownloadURL srcID]
      in case getStateDownloadURL env (calls st) srcID of
           Inl e \<Rightarrow> failed st l1
         | Inr downloadURL \<Rightarrow>
            (let l2 = l1 @ [Call_GetStateUploadURL dstID]
             in case getStateUploadURL env l1 dstID of
                  Inl e \<Rightarrow> failed st l2
                | Inr uploadResult \<Rightarrow>
                   (let l3 = l2 @ [Call_StreamStateFromURL downloadURL]
                    in case StreamStateFromURL (http env l2) downloadURL of
                         Inl e \<Rightarrow> failed st l3
                       | Inr (stateReader, contentLength) \<Rightarrow>
                          (let l4 = l3 @ [Call_UploadStateToURL (upload_URL uploadResult) contentLength,
                                          Call_Close]
                           in case UploadStateToURL (http env l3) (upload_URL uploadResult)
                                     stateReader contentLength of
                                Some e \<Rightarrow> failed st l4
                              | None \<Rightarrow>
                                 (let l5 = l4 @ [Call_LockStack dstID]
                                  in case lockStack env l4 dstID of
                                       Some e \<Rightarrow> failed st l5
                                     | None \<Rightarrow>
                                        (let l6 = l5 @ [Call_ImportManagedState dstID
                                                          (upload_ObjectID uploadResult)];
                                             l7 = l6 @ [Call_UnlockStack dstID]
                                         in case importManagedState env l5 dstID
                                                   (upload_ObjectID uploadResult) of
                                              Some e \<Rightarrow>
                                                (case unlockStack env l6 dstID of
                                                   Some e' \<Rightarrow> failed st l7
                                                 | None \<Rightarrow> failed st l7)
                                            | None \<Rightarrow>
                                                (case unlockStack env l6 dstID of
                                                   Some e' \<Rightarrow> succeeded st l7
                                                 | None \<Rightarrow> succeeded st l7)))))))"

fun migrateLoop :: "transfer_env \<Rightarrow> migrationCandidate list \<Rightarrow> loop_state \<Rightarrow> loop_state" where
  "migrateLoop env [] st = st"
| "migrateLoop env (c # cs) st = migrateLoop env cs (migrateOne env c st)"

text \<open>
  What \<open>runStateMigrate\<close> needs from outside: the two configuration checks, the two
  client constructions, the discovery results of both accounts, and the transfer
  environment. What it returns and prints is collected in a report: the error, the
  plan (once the classification has run), the log of transfer calls and the counters.
\<close>

record migrate_env =
  validateSource :: "error option"
  validateDestination :: "error option"
  newSourceClient :: "error option"
  newDestClient :: "error option"
  sourceSpaces :: "error + Space list"
  sourceStacks :: "error + Stack list"
  destStacks :: "error + Stack list"
  transfer :: transfer_env

record migrate_report =
  rep_error :: "error option"
  rep_plan :: "classification option"
  rep_calls :: "call list"
  rep_succeeded :: nat
  rep_failed :: nat

definition aborted :: "error \<Rightarrow> migrate_report" where
  "aborted e = \<lparr>rep_error = Some e, rep_plan = None, rep_calls = [], rep_succeeded = 0, rep_failed = 0\<rparr>"

definition planOnly :: "classification \<Rightarrow> migrate_report" where
  "planOnly p = \<lparr>rep_error = None, rep_plan = Some p, rep_calls = [], rep_succeeded = 0, rep_failed = 0\<rparr>"

text \<open>The part of \<open>runStateMigrate\<close> after the plan has been printed.\<close>

definition performMigration :: "transfer_env \<Rightarrow> classification \<Rightarrow> migrate_report" where
  "performMigration env p =
     (let st = migrateLoop env (candidates p) \<lparr>calls = [], successCount = 0, failCount = 0\<rparr>
      in \<lparr>rep_error = (if failCount st > 0
                        then Some (StatusErr ''stacks failed to migrate'' (int (failCount st)))
                        else None),
          rep_plan = Some p, rep_calls = calls st,
          rep_succeeded = successCount st, rep_failed = failCount st\<rparr>)"

definition runStateMigrate :: "migrate_env \<Rightarrow> bool \<Rightarrow> string \<Rightarrow> migrate_report" where
  "runStateMigrate env dryRun spaceFilter =
     (case validateSource env of
        Some e \<Rightarrow> aborted (Wrap ''source configuration error'' e)
      | None \<Rightarrow>
     (case validateDestination env of
        Some e \<Rightarrow> aborted (Wrap ''destination configuration error'' e)
      | None \<Rightarrow>
     (case newSourceClient env of
        Some e \<Rightarrow> aborted (Wrap ''failed to create source client'' e)
      | None \<Rightarrow>
     (case newDestClient env of
        Some e \<Rightarrow> aborted (Wrap ''failed to create destination client'' e)
      | None \<Rightarrow>
     (case (if spaceFilter \<noteq> []
            then (case resolveSpaceFilter (sourceSpaces env) spaceFilter of
                    Inl e \<Rightarrow> Inl e
                  | Inr (spaceID, spaceName) \<Rightarrow> Inr spaceID)
            else Inr []) of
        Inl e \<Rightarrow> aborted e
      | Inr resolvedSpaceID \<Rightarrow>
     (case sourceStacks env of
        Inl e \<Rightarrow> aborted (Wrap ''failed to discover source stacks'' e)
      | Inr discovered \<Rightarrow>
     (let srcStacks = (if resolvedSpaceID \<noteq> [] then stacksOfSpace resolvedSpaceID discovered
                       else discovered)
      in case destStacks env of
           Inl e \<Rightarrow> aborted (Wrap ''failed to discover destination stacks'' e)
         | Inr dsts \<Rightarrow>
            (let p = classifyStacks (destStackMap dsts) srcStacks noStacks
             in if candidates p = [] then planOnly p
                else if dryRun then planOnly p
                else performMigration (transfer env) p))))))))"

subsection \<open>Notions used in the statements about the migration\<close>

text \<open>
  The classification the way the specification words it: five dispositions, the
  conditions tested in the listed order, a candidate paired with the last destination
  stack of its name.
\<close>

datatype disposition =
    SkipExternallyManaged
  | SkipNonApplicableVendor
  | BlockedNoAccess
  | BlockedNotInDestination
  | Candidate Stack

definition classify :: "Stack list \<Rightarrow> Stack \<Rightarrow> disposition" where
  "classify dsts s =
     (if \<not> stack_ManagesStateFile s then SkipExternallyManaged
      else if \<not> IsTerraform s then SkipNonApplicableVendor
      else if \<not> stack_ExternalStateAccessEnabled s then BlockedNoAccess
      else if filter (\<lambda>d. stack_Name d = stack_Name s) dsts = [] then BlockedNotInDestination
      else Candidate (last (filter (\<lambda>d. stack_Name d = stack_Name s) dsts)))"

text \<open>What the plan lists for one stack, according to its disposition.\<close>

definition candidateOf :: "Stack list \<Rightarrow> Stack \<Rightarrow> migrationCandidate list" where
  "candidateOf dsts s = (case classify dsts s of Candidate d \<Rightarrow> [\<lparr>Source = s, Dest = d\<rparr>] | _ \<Rightarrow> [])"

definition skipLineOf :: "Stack list \<Rightarrow> Stack \<Rightarrow> string list" where
  "skipLineOf dsts s =
     (case classify dsts s of
        SkipExternallyManaged \<Rightarrow> [stack_Name s @ '' (self-managed state)'']
      | SkipNonApplicableVendor \<Rightarrow>
          [stack_Name s @ '' ('' @ friendlyVendorType (stack_VendorType s) @ '')'']
      | _ \<Rightarrow> [])"

text \<open>The calls a loop step added to the log, and the lock and unlock calls among them.\<close>

definition newCalls :: "loop_state \<Rightarrow> loop_state \<Rightarrow> call list" where
  "newCalls st st' = drop (length (calls st)) (calls st')"

fun isLocking :: "call \<Rightarrow> bool" where
  "isLocking (Call_LockStack s) = True"
| "isLocking (Call_UnlockStack s) = True"
| "isLocking c = False"

text \<open>
  \<open>streamed env c log url up rd len\<close>: starting from the log \<open>log\<close>, the four steps
  before the lock succeed for candidate \<open>c\<close>, with the download location \<open>url\<close>, the
  upload result \<open>up\<close>, and the downloaded stream \<open>rd\<close> of length \<open>len\<close>.
  \<open>logStreamed\<close> is the log at that point.
\<close>

definition logStreamed :: "migrationCandidate \<Rightarrow> call list \<Rightarrow> string \<Rightarrow> StateUploadResult \<Rightarrow> int \<Rightarrow> call list" where
  "logStreamed c log url up len =
     log @ [Call_GetStateDownloadURL (stack_ID (Source c)), Call_GetStateUploadURL (stack_ID (Dest c)),
            Call_StreamStateFromURL url, Call_UploadStateToURL (upload_URL up) len, Call_Close]"

definition streamed :: "transfer_env \<Rightarrow> migrationCandidate \<Rightarrow> call list \<Rightarrow> string \<Rightarrow> StateUploadResult \<Rightarrow> string \<Rightarrow> int \<Rightarrow> bool" where
  "streamed env c log url up rd len =
     (getStateDownloadURL env log (stack_ID (Source c)) = Inr url \<and>
      getStateUploadURL env (log @ [Call_GetStateDownloadURL (stack_ID (Source c))]) (stack_ID (Dest c)) = Inr up \<and>
      StreamStateFromURL
        (http env (log @ [Call_GetStateDownloadURL (stack_ID (Source c)),
                          Call_GetStateUploadURL (stack_ID (Dest c))])) url = Inr (rd, len) \<and>
      UploadStateToURL
        (http env (log @ [Call_GetStateDownloadURL (stack_ID (Source c)),
                          Call_GetStateUploadURL (stack_ID (Dest c)), Call_StreamStateFromURL url]))
        (upload_URL up) rd len = None)"

subsection \<open>Example environments for the migration\<close>

text \<open>
  A scripted environment for examples: it ignores the log, and a call fails iff the
  predicate \<open>bad\<close> holds of it (a failing download or upload is answered with status 500).
\<close>

definition scripted :: "(call \<Rightarrow> bool) \<Rightarrow> transfer_env" where
  "scripted bad =
     \<lparr>getStateDownloadURL = (\<lambda>log sid.
        if bad (Call_GetStateDownloadURL sid) then Inl (Err ''no download url'') else Inr (''dl-'' @ sid)),
      getStateUploadURL = (\<lambda>log sid.
        if bad (Call_GetStateUploadURL sid) then Inl (Err ''no upload url'')
        else Inr \<lparr>upload_URL = ''ul-'' @ sid, upload_ObjectID = ''obj-'' @ sid\<rparr>),
      http = (\<lambda>log.
        \<lparr>newRequest = (\<lambda>m u. None),
         doRequest = (\<lambda>m u.
           if (m = ''GET'' \<and> bad (Call_StreamStateFromURL u)) \<or> (m = ''PUT'' \<and> bad (Call_UploadStateToURL u 3))
           then Inr \<lparr>StatusCode = 500, ContentLength = 0, Body = []\<rparr>
           else Inr \<lparr>StatusCode = 200, ContentLength = 3, Body = ''{}''\<rparr>)\<rparr>),
      lockStack = (\<lambda>log sid. if bad (Call_LockStack sid) then Some (Err ''lock refused'') else None),
      importManagedState = (\<lambda>log sid obj.
        if bad (Call_ImportManagedState sid obj) then Some (Err ''import refused'') else None),
      unlockStack = (\<lambda>log sid. if bad (Call_UnlockStack sid) then Some (Err ''unlock refused'') else None)\<rparr>"

text \<open>A stack given by id, name and space, with managed state, a Terraform vendor and external state access.\<close>

definition mkStack :: "string \<Rightarrow> string \<Rightarrow> string \<Rightarrow> Stack" where
  "mkStack i n sp =
     \<lparr>stack_ID = i, stack_Name = n, stack_Space = sp,
      stack_VendorType = ''StackConfigVendorTerraform'', stack_Autodeploy = False,
      stack_IsDisabled = False, stack_ManagesStateFile = True,
      stack_ExternalStateAccessEnabled = True, stack_AttachedContexts = [],
      stack_AttachedPolicies = [], stack_AttachedAWSIntegrations = [],
      stack_AttachedAzureIntegrations = []\<rparr>"

definition pair :: "string \<Rightarrow> migrationCandidate" where
  "pair n = \<lparr>Source = mkStack (''src-'' @ n) n ''root'', Dest = mkStack (''dst-'' @ n) n ''root''\<rparr>"

definition start :: loop_state where
  "start = \<lparr>calls = [], successCount = 0, failCount = 0\<rparr>"

text \<open>Two scripts: the import and the unlock of A's destination fail; only the unlock fails.\<close>

definition importAndUnlockFail :: "call \<Rightarrow> bool" where
  "importAndUnlockFail x =
     (x = Call_ImportManagedState ''dst-A'' ''obj-dst-A'' \<or> x = Call_UnlockStack ''dst-A'')"

definition unlockFails :: "call \<Rightarrow> bool" where
  "unlockFails x = (x = Call_UnlockStack ''dst-A'')"

fun isDownloadURLCall :: "call \<Rightarrow> bool" where
  "isDownloadURLCall (Call_GetStateDownloadURL s) = True"
| "isDownloadURLCall c = False"

subsection \<open>Further notions used in the statements about the migration\<close>

text \<open>
  An environment is log-free when its answers depend on the call only, not on the
  calls made before: such an environment cannot carry an effect from one candidate
  to the next.
\<close>

definition logFree :: "transfer_env \<Rightarrow> bool" where
  "logFree env =
     ((\<forall>log. getStateDownloadURL env log = getStateDownloadURL env []) \<and>
      (\<forall>log. getStateUploadURL env log = getStateUploadURL env []) \<and>
      (\<forall>log. http env log = http env []) \<and>
      (\<forall>log. lockStack env log = lockStack env []) \<and>
      (\<forall>log. importManagedState env log = importManagedState env []) \<and>
      (\<forall>log. unlockStack env log = unlockStack env []))"

text \<open>
  \<open>setupOK env flt sid ss ds\<close>: configuration, clients and discovery succeed, the source
  account has the stacks \<open>ss\<close> and the destination the stacks \<open>ds\<close>, and the space filter
  \<open>flt\<close> is either absent (then \<open>sid\<close> is empty) or resolves to the space id \<open>sid\<close>.
\<close>

definition setupOK :: "migrate_env \<Rightarrow> string \<Rightarrow> string \<Rightarrow> Stack list \<Rightarrow> Stack list \<Rightarrow> bool" where
  "setupOK env flt sid ss ds =
     (validateSource env = None \<and> validateDestination env = None \<and>
      newSourceClient env = None \<and> newDestClient env = None \<and>
      sourceStacks env = Inr ss \<and> destStacks env = Inr ds \<and>
      (if flt = [] then sid = []
       else (\<exists>nm. resolveSpaceFilter (sourceSpaces env) flt = Inr (sid, nm))))"

text \<open>The script in which only the download of B's state fails.\<close>

definition downloadOfBFails :: "call \<Rightarrow> bool" where
  "downloadOfBFails x = (x = Call_StreamStateFromURL ''dl-src-B'')"

text \<open>
  A complete environment for examples: the spaces root, infra and infra-prod, given
  source and destination stacks, and a scripted transfer environment.
\<close>

definition demoEnv :: "(call \<Rightarrow> bool) \<Rightarrow> Stack list \<Rightarrow> Stack list \<Rightarrow> migrate_env" where
  "demoEnv bad ss ds =
     \<lparr>validateSource = None, validateDestination = None,
      newSourceClient = None, newDestClient = None,
      sourceSpaces = Inr [mkSpace ''root'' ''root'' None, mkSpace ''infra'' ''infra'' (Some ''root''),
                          mkSpace ''infra-prod'' ''infra-prod'' (Some ''infra'')],
      sourceStacks = Inr ss, destStacks = Inr ds, transfer = scripted bad\<rparr>"

section \<open>Manifest construction (internal/discovery/discovery.go)\<close>

text \<open>
  The sub-fetches of the discovery service are the environment: each either fails or
  returns its collection. The attachments of an integration are a Go map from stack
  id to attachment; the model has its entries in the order the \<open>range\<close> loop visits
  them.
\<close>

record discovery_env =
  clientURL :: string
  discoverSpaces :: "error + Space list"
  discoverContexts :: "error + Context list"
  discoverPolicies :: "error + Policy list"
  discoverStacks :: "error + Stack list"
  discoverAWSIntegrations :: "error + AWSIntegration list"
  discoverAzureIntegrations :: "error + AzureIntegration list"
  discoverAWSIntegrationAttachments :: "string \<Rightarrow> error + (string \<times> AWSIntegrationAttachment) list"
  discoverAzureIntegrationAttachments :: "string \<Rightarrow> error + (string \<times> AzureIntegrationAttachment) list"

text \<open>\<open>stackIndex\<close>: the Go map from stack id to the index of the stack (the last one wins).\<close>

definition stackIndex :: "Stack list \<Rightarrow> (string \<rightharpoonup> nat)" where
  "stackIndex stacks =
     foldl (\<lambda>m (i, stack). m(stack_ID stack \<mapsto> i)) Map.empty (zip [0..<length stacks] stacks)"

fun attachAWS :: "(string \<rightharpoonup> nat) \<Rightarrow> (string \<times> AWSIntegrationAttachment) list \<Rightarrow> Stack list \<Rightarrow> Stack list" where
  "attachAWS idx [] stacks = stacks"
| "attachAWS idx ((stackID, attachment) # rest) stacks =
     (case idx stackID of
        Some i \<Rightarrow>
          attachAWS idx rest
            (stacks[i := (stacks ! i)\<lparr>stack_AttachedAWSIntegrations :=
                            stack_AttachedAWSIntegrations (stacks ! i) @ [attachment]\<rparr>])
      | None \<Rightarrow> attachAWS idx rest stacks)"

fun attachAzure :: "(string \<rightharpoonup> nat) \<Rightarrow> (string \<times> AzureIntegrationAttachment) list \<Rightarrow> Stack list \<Rightarrow> Stack list" where
  "attachAzure idx [] stacks = stacks"
| "attachAzure idx ((stackID, attachment) # rest) stacks =
     (case idx stackID of
        Some i \<Rightarrow>
          attachAzure idx rest
            (stacks[i := (stacks ! i)\<lparr>stack_AttachedAzureIntegrations :=
                            stack_AttachedAzureIntegrations (stacks ! i) @ [attachment]\<rparr>])
      | None \<Rightarrow> attachAzure idx rest stacks)"

text \<open>The two loops over the integrations; a failing attachment fetch ends them.\<close>

definition awsLabel :: "AWSIntegration \<Rightarrow> string" where
  "awsLabel integration = ''failed to discover AWS integration attachments for '' @ aws_Name integration"

definition azureLabel :: "AzureIntegration \<Rightarrow> string" where
  "azureLabel integration = ''failed to discover Azure integration attachments for '' @ azure_Name integration"

fun awsAttachments :: "discovery_env \<Rightarrow> (string \<rightharpoonup> nat) \<Rightarrow> AWSIntegration list \<Rightarrow> Stack list \<Rightarrow> error + Stack list" where
  "awsAttachments env idx [] stacks = Inr stacks"
| "awsAttachments env idx (integration # rest) stacks =
     (case discoverAWSIntegrationAttachments env (aws_ID integration) of
        Inl e \<Rightarrow> Inl (Wrap (awsLabel integration) e)
      | Inr attachments \<Rightarrow> awsAttachments env idx rest (attachAWS idx attachments stacks))"

fun azureAttachments :: "discovery_env \<Rightarrow> (string \<rightharpoonup> nat) \<Rightarrow> AzureIntegration list \<Rightarrow> Stack list \<Rightarrow> error + Stack list" where
  "azureAttachments env idx [] stacks = Inr stacks"
| "azureAttachments env idx (integration # rest) stacks =
     (case discoverAzureIntegrationAttachments env (azure_ID integration) of
        Inl e \<Rightarrow> Inl (Wrap (azureLabel integration) e)
      | Inr attachments \<Rightarrow> azureAttachments env idx rest (attachAzure idx attachments stacks))"

text \<open>
  \<open>DiscoverAll\<close> returns the Go pair (manifest pointer, error); a nil pointer and a nil
  error are \<open>None\<close>.
\<close>

definition DiscoverAll :: "discovery_env \<Rightarrow> Manifest option \<times> error option" where
  "DiscoverAll env =
     (case discoverSpaces env of
        Inl e \<Rightarrow> (None, Some (Wrap ''failed to discover spaces'' e))
      | Inr spaces \<Rightarrow>
     (case discoverContexts env of
        Inl e \<Rightarrow> (None, Some (Wrap ''failed to discover contexts'' e))
      | Inr contexts \<Rightarrow>
     (case discoverPolicies env of
        Inl e \<Rightarrow> (None, Some (Wrap ''failed to discover policies'' e))
      | Inr policies \<Rightarrow>
     (case discoverStacks env of
        Inl e \<Rightarrow> (None, Some (Wrap ''failed to discover stacks'' e))
      | Inr stacks \<Rightarrow>
     (case discoverAWSIntegrations env of
        Inl e \<Rightarrow> (None, Some (Wrap ''failed to discover AWS integrations'' e))
      | Inr awsIntegrations \<Rightarrow>
     (case discoverAzureIntegrations env of
        Inl e \<Rightarrow> (None, Some (Wrap ''failed to discover Azure integrations'' e))
      | Inr azureIntegrations \<Rightarrow>
     (case awsAttachments env (stackIndex stacks) awsIntegrations stacks of
        Inl e \<Rightarrow> (None, Some e)
      | Inr stacks1 \<Rightarrow>
     (case azureAttachments env (stackIndex stacks) azureIntegrations stacks1 of
        Inl e \<Rightarrow> (None, Some e)
      | Inr stacks2 \<Rightarrow>
          (Some \<lparr>SourceURL = clientURL env, Spaces = spaces, Stacks = stacks2,
                  Contexts = contexts, Policies = policies,
                  AWSIntegrations = awsIntegrations, AzureIntegrations = azureIntegrations\<rparr>,
           None)))))))))"

subsection \<open>Notions used in the statements about the build\<close>

text \<open>
  The sub-fetches in the order the build makes them, each with the text its error is
  wrapped in and with its error, if it fails; the attachments are fetched for the
  integrations that were discovered. \<open>firstFailure\<close> is the first failing one.
\<close>

definition errorOf :: "error + 'a \<Rightarrow> error option" where
  "errorOf r = (case r of Inl e \<Rightarrow> Some e | Inr x \<Rightarrow> None)"

definition found :: "error + 'a list \<Rightarrow> 'a list" where
  "found r = (case r of Inl e \<Rightarrow> [] | Inr xs \<Rightarrow> xs)"

definition subFetches :: "discovery_env \<Rightarrow> (string \<times> error option) list" where
  "subFetches env =
     [(''failed to discover spaces'', errorOf (discoverSpaces env)),
      (''failed to discover contexts'', errorOf (discoverContexts env)),
      (''failed to discover policies'', errorOf (discoverPolicies env)),
      (''failed to discover stacks'', errorOf (discoverStacks env)),
      (''failed to discover AWS integrations'', errorOf (discoverAWSIntegrations env)),
      (''failed to discover Azure integrations'', errorOf (discoverAzureIntegrations env))] @
     map (\<lambda>i. (awsLabel i, errorOf (discoverAWSIntegrationAttachments env (aws_ID i))))
         (found (discoverAWSIntegrations env)) @
     map (\<lambda>i. (azureLabel i, errorOf (discoverAzureIntegrationAttachments env (azure_ID i))))
         (found (discoverAzureIntegrations env))"

fun firstError :: "(string \<times> error option) list \<Rightarrow> (string \<times> error) option" where
  "firstError [] = None"
| "firstError ((name, None) # rest) = firstError rest"
| "firstError ((name, Some e) # rest) = Some (name, e)"

definition firstFailure :: "discovery_env \<Rightarrow> (string \<times> error) option" where
  "firstFailure env = firstError (subFetches env)"

text \<open>
  An account for examples: one stack, two AWS integrations and one Azure integration;
  the attachments of the second AWS integration and of the Azure integration cannot
  be fetched.
\<close>

definition brokenAccount :: discovery_env where
  "brokenAccount =
     \<lparr>clientURL = ''https://source.example'',
      discoverSpaces = Inr [mkSpace ''root'' ''root'' None],
      discoverContexts = Inr [],
      discoverPolicies = Inr [],
      discoverStacks = Inr [mkStack ''s1'' ''S1'' ''root''],
      discoverAWSIntegrations =
        Inr [\<lparr>aws_ID = ''i1'', aws_Name = ''one'', aws_RoleARN = ''arn-1'', aws_Space = ''root''\<rparr>,
             \<lparr>aws_ID = ''i2'', aws_Name = ''two'', aws_RoleARN = ''arn-2'', aws_Space = ''root''\<rparr>],
      discoverAzureIntegrations =
        Inr [\<lparr>azure_ID = ''z1'', azure_Name = ''az'', azure_TenantID = ''t'', azure_Space = ''root''\<rparr>],
      discoverAWSIntegrationAttachments = (\<lambda>i.
        if i = ''i1''
        then Inr [(''s1'', \<lparr>awsatt_IntegrationID = ''i1'', awsatt_Read = True, awsatt_Write = False\<rparr>)]
        else Inl (Err ''timeout'')),
      discoverAzureIntegrationAttachments = (\<lambda>i. Inl (Err ''forbidden''))\<rparr>"

section \<open>The space-scoped filter (cmd/spacebridge, generate)\<close>

text \<open>
  The Go sets \<open>map[string]bool\<close> are sets of strings: reading a key that was never
  written gives false. \<open>spaceMap\<close> is filled by the same loop as \<open>spaceByID\<close>.
  The walk up the parent pointers is a loop that ends at an empty id, at \<open>root\<close>, at an
  id that is not in the map, or at a space without parent. On a cycle of parent
  pointers it never ends; in the model it then has no result (\<open>None\<close>).
  \<open>walkAncestors\<close> is the first walk, which also fills \<open>ancestorSpaces\<close>; its state is
  the pair (includedSpaces, ancestorSpaces). \<open>walkUp\<close> is the walk made for the owner
  of an attached context or policy.
\<close>

partial_function (option) walkAncestors ::
  "(string \<rightharpoonup> Space) \<Rightarrow> string \<Rightarrow> string set \<times> string set \<Rightarrow> (string set \<times> string set) option" where
  "walkAncestors spaceMap currentSpaceID st =
     (if currentSpaceID \<noteq> [] \<and> currentSpaceID \<noteq> ''root'' then
        (case spaceMap currentSpaceID of
           Some space \<Rightarrow>
             (case space_ParentSpace space of
                Some parent \<Rightarrow>
                  walkAncestors spaceMap parent
                    (insert currentSpaceID (fst st), insert parent (insert currentSpaceID (snd st)))
              | None \<Rightarrow> Some (insert currentSpaceID (fst st), insert currentSpaceID (snd st)))
         | None \<Rightarrow> Some st)
      else Some st)"

partial_function (option) walkUp ::
  "(string \<rightharpoonup> Space) \<Rightarrow> string \<Rightarrow> string set \<Rightarrow> string set option" where
  "walkUp spaceMap currentSpaceID includedSpaces =
     (if currentSpaceID \<noteq> [] \<and> currentSpaceID \<noteq> ''root'' then
        (case spaceMap currentSpaceID of
           Some space \<Rightarrow>
             (case space_ParentSpace space of
                Some parent \<Rightarrow> walkUp spaceMap parent (insert currentSpaceID includedSpaces)
              | None \<Rightarrow> Some (insert currentSpaceID includedSpaces))
         | None \<Rightarrow> Some includedSpaces)
      else Some includedSpaces)"

declare walkAncestors.simps [code] walkUp.simps [code]

text \<open>
  One pass of the loop that walks down: it goes through the spaces in list order and
  adds a space whose parent is already included; the set grows during the pass.
\<close>

fun descendPass :: "Space list \<Rightarrow> string set \<Rightarrow> bool \<Rightarrow> string set \<times> bool" where
  "descendPass [] includedSpaces changed = (includedSpaces, changed)"
| "descendPass (space # rest) includedSpaces changed =
     (case space_ParentSpace space of
        Some parent \<Rightarrow>
          if parent \<in> includedSpaces \<and> space_ID space \<notin> includedSpaces
          then descendPass rest (insert (space_ID space) includedSpaces) True
          else descendPass rest includedSpaces changed
      | None \<Rightarrow> descendPass rest includedSpaces changed)"

lemma descendPass_grows: "includedSpaces \<subseteq> fst (descendPass spaces includedSpaces changed)"
proof (induction spaces arbitrary: includedSpaces changed)
  case Nil show ?case by simp
next
  case (Cons sp spaces)
  have a: "includedSpaces \<subseteq> fst (descendPass spaces (insert (space_ID sp) includedSpaces) True)"
    using Cons.IH[of "insert (space_ID sp) includedSpaces" True] by blast
  have b: "includedSpaces \<subseteq> fst (descendPass spaces includedSpaces changed)"
    by (rule Cons.IH)
  from a b show ?case by (simp split: option.splits)
qed

lemma descendPass_ids:
  "fst (descendPass spaces includedSpaces changed) \<subseteq> includedSpaces \<union> space_ID ` set spaces"
proof (induction spaces arbitrary: includedSpaces changed)
  case Nil show ?case by simp
next
  case (Cons sp spaces)
  have a: "fst (descendPass spaces (insert (space_ID sp) includedSpaces) True)
      \<subseteq> insert (space_ID sp) includedSpaces \<union> space_ID ` set spaces"
    by (rule Cons.IH)
  have b: "fst (descendPass spaces includedSpaces changed) \<subseteq> includedSpaces \<union> space_ID ` set spaces"
    by (rule Cons.IH)
  from a b show ?case by (auto split: option.splits)
qed

lemma descendPass_changed:
  "snd (descendPass spaces includedSpaces False) \<Longrightarrow>
     includedSpaces \<noteq> fst (descendPass spaces includedSpaces False)"
proof -
  have keep: "\<And>inc. snd (descendPass spaces inc True)"
    by (induction spaces) (auto split: option.splits)
  have "\<And>inc. snd (descendPass spaces inc False) \<Longrightarrow> \<exists>x. x \<notin> inc \<and> x \<in> fst (descendPass spaces inc False)"
  proof (induction spaces)
    case Nil then show ?case by simp
  next
    case (Cons sp spaces)
    show ?case
    proof (cases "\<exists>p. space_ParentSpace sp = Some p \<and> p \<in> inc \<and> space_ID sp \<notin> inc")
      case True
      then obtain p where p: "space_ParentSpace sp = Some p" "p \<in> inc" "space_ID sp \<notin> inc" by blast
      have "space_ID sp \<in> fst (descendPass spaces (insert (space_ID sp) inc) True)"
        using descendPass_grows[of "insert (space_ID sp) inc" spaces True] by blast
      with p show ?thesis by (intro exI[of _ "space_ID sp"]) simp
    next
      case False
      then have eq: "descendPass (sp # spaces) inc False = descendPass spaces inc False"
        by (auto split: option.splits)
      with Cons show ?thesis by simp
    qed
  qed
  then show "snd (descendPass spaces includedSpaces False) \<Longrightarrow>
     includedSpaces \<noteq> fst (descendPass spaces includedSpaces False)" by blast
qed

text \<open>The loop \<open>for changed\<close>: passes are repeated until one changes nothing.\<close>

function descend :: "Space list \<Rightarrow> string set \<Rightarrow> string set" where
  "descend spaces includedSpaces =
     (if snd (descendPass spaces includedSpaces False)
      then descend spaces (fst (descendPass spaces includedSpaces False))
      else fst (descendPass spaces includedSpaces False))"
  by pat_completeness auto
termination
proof (relation "measure (\<lambda>(spaces, includedSpaces). card (space_ID ` set spaces - includedSpaces))")
  show "wf (measure (\<lambda>(spaces, includedSpaces). card (space_ID ` set spaces - includedSpaces)))"
    by simp
next
  fix spaces :: "Space list" and includedSpaces :: "string set"
  assume ch: "snd (descendPass spaces includedSpaces False)"
  let ?new = "fst (descendPass spaces includedSpaces False)"
  have sub: "includedSpaces \<subseteq> ?new" by (rule descendPass_grows)
  have ne: "includedSpaces \<noteq> ?new" using ch by (rule descendPass_changed)
  have ids: "?new \<subseteq> includedSpaces \<union> space_ID ` set spaces" by (rule descendPass_ids)
  from sub ne obtain x where x: "x \<in> ?new" "x \<notin> includedSpaces" by blast
  with ids have xin: "x \<in> space_ID ` set spaces - includedSpaces" by blast
  have "space_ID ` set spaces - ?new \<subset> space_ID ` set spaces - includedSpaces"
    using sub x xin by blast
  then have "card (space_ID ` set spaces - ?new) < card (space_ID ` set spaces - includedSpaces)"
    by (intro psubset_card_mono) simp_all
  then show "((spaces, ?new), (spaces, includedSpaces))
      \<in> measure (\<lambda>(spaces, includedSpaces). card (space_ID ` set spaces - includedSpaces))"
    by simp
qed

declare descend.simps [simp del]

text \<open>
  The ids of the contexts and policies attached to the kept stacks. The Go code keeps
  them in sets and visits them in the unspecified order of a map; the model visits them
  in the order of the attachments. Each visit only adds ids to \<open>includedSpaces\<close>.
\<close>

definition contextIDsOf :: "Stack list \<Rightarrow> string list" where
  "contextIDsOf stacks = concat (map (\<lambda>stack. map catt_ContextID (stack_AttachedContexts stack)) stacks)"

definition policyIDsOf :: "Stack list \<Rightarrow> string list" where
  "policyIDsOf stacks = concat (map (\<lambda>stack. map patt_PolicyID (stack_AttachedPolicies stack)) stacks)"

definition contextSpaceMap :: "Context list \<Rightarrow> (string \<rightharpoonup> string)" where
  "contextSpaceMap contexts = foldl (\<lambda>m ctx. m(ctx_ID ctx \<mapsto> ctx_Space ctx)) Map.empty contexts"

definition policySpaceMap :: "Policy list \<Rightarrow> (string \<rightharpoonup> string)" where
  "policySpaceMap policies = foldl (\<lambda>m policy. m(policy_ID policy \<mapsto> policy_Space policy)) Map.empty policies"

fun includeOwners :: "(string \<rightharpoonup> Space) \<Rightarrow> (string \<rightharpoonup> string) \<Rightarrow> string list \<Rightarrow> string set \<Rightarrow> string set option" where
  "includeOwners spaceMap owner [] includedSpaces = Some includedSpaces"
| "includeOwners spaceMap owner (k # ks) includedSpaces =
     (case owner k of
        Some spaceID \<Rightarrow>
          (case walkUp spaceMap spaceID includedSpaces of
             Some includedSpaces' \<Rightarrow> includeOwners spaceMap owner ks includedSpaces'
           | None \<Rightarrow> None)
      | None \<Rightarrow> includeOwners spaceMap owner ks includedSpaces)"

text \<open>
  \<open>includedBefore\<close> is \<open>includedSpaces\<close> (with \<open>ancestorSpaces\<close>) when the stacks are
  filtered: after the walk up from the target and the walk down.
  \<open>includedAfter\<close> is \<open>includedSpaces\<close> when the spaces, contexts, policies and
  integrations are filtered: after the owners of the attached contexts and policies
  have been walked up.
\<close>

definition includedBefore :: "Manifest \<Rightarrow> string \<Rightarrow> (string set \<times> string set) option" where
  "includedBefore manifest spaceID =
     (case walkAncestors (spaceByID (Spaces manifest)) spaceID ({spaceID}, {''root''}) of
        None \<Rightarrow> None
      | Some (includedSpaces, ancestorSpaces) \<Rightarrow>
          Some (descend (Spaces manifest) includedSpaces, ancestorSpaces))"

definition includedAfter :: "Manifest \<Rightarrow> string set \<Rightarrow> string set option" where
  "includedAfter manifest includedSpaces =
     (let filteredStacks = filter (\<lambda>stack. stack_Space stack \<in> includedSpaces) (Stacks manifest)
      in case includeOwners (spaceByID (Spaces manifest)) (contextSpaceMap (Contexts manifest))
                (contextIDsOf filteredStacks) includedSpaces of
           None \<Rightarrow> None
         | Some includedSpaces' \<Rightarrow>
             includeOwners (spaceByID (Spaces manifest)) (policySpaceMap (Policies manifest))
               (policyIDsOf filteredStacks) includedSpaces')"

definition filterManifestBySpace :: "Manifest \<Rightarrow> string \<Rightarrow> Manifest option" where
  "filterManifestBySpace manifest spaceID =
     (if spaceID = [] then Some manifest
      else
        (case includedBefore manifest spaceID of
           None \<Rightarrow> None
         | Some (includedSpaces, ancestorSpaces) \<Rightarrow>
            (let filteredStacks = filter (\<lambda>stack. stack_Space stack \<in> includedSpaces) (Stacks manifest);
                 requiredContextIDs = set (contextIDsOf filteredStacks);
                 requiredPolicyIDs = set (policyIDsOf filteredStacks)
             in case includedAfter manifest includedSpaces of
                  None \<Rightarrow> None
                | Some includedSpaces' \<Rightarrow>
                    Some \<lparr>SourceURL = SourceURL manifest,
                          Spaces = filter (\<lambda>space. space_ID space \<in> includedSpaces') (Spaces manifest),
                          Stacks = filteredStacks,
                          Contexts = filter (\<lambda>ctx. ctx_Space ctx \<in> includedSpaces' \<or>
                                                  ctx_ID ctx \<in> requiredContextIDs) (Contexts manifest),
                          Policies = filter (\<lambda>policy. policy_Space policy \<in> includedSpaces' \<or>
                                                     policy_ID policy \<in> requiredPolicyIDs) (Policies manifest),
                          AWSIntegrations =
                            filter (\<lambda>integration. aws_Space integration \<in> includedSpaces' \<or>
                                                  aws_Space integration \<in> ancestorSpaces)
                                   (AWSIntegrations manifest),
                          AzureIntegrations =
                            filter (\<lambda>integration. azure_Space integration \<in> includedSpaces' \<or>
                                                  azure_Space integration \<in> ancestorSpaces)
                                   (AzureIntegrations manifest)\<rparr>)))"

text \<open>
  The manifest of the scenario: root, infra below it, infra-prod below infra, and one
  stack in infra-prod. \<open>withSibling\<close> adds the space infra-dev below infra, with a stack.
\<close>

definition scenario :: Manifest where
  "scenario =
     \<lparr>SourceURL = ''https://source.example'',
      Spaces = [mkSpace ''root'' ''root'' None, mkSpace ''infra'' ''infra'' (Some ''root''),
                mkSpace ''infra-prod'' ''infra-prod'' (Some ''infra'')],
      Stacks = [mkStack ''s1'' ''S1'' ''infra-prod''],
      Contexts = [], Policies = [], AWSIntegrations = [], AzureIntegrations = []\<rparr>"

definition withSibling :: Manifest where
  "withSibling =
     scenario\<lparr>Spaces := Spaces scenario @ [mkSpace ''infra-dev'' ''infra-dev'' (Some ''infra'')],
              Stacks := Stacks scenario @ [mkStack ''s2'' ''S2'' ''infra-dev'']\<rparr>"

subsection \<open>Notions used in the statements about the filter\<close>

text \<open>
  The notions of the specification. \<open>subtree spaces S\<close> is \<open>S\<close> together with the
  descendant closure of \<open>S\<close>: every space of the list whose parent pointer leads into
  it. \<open>chain spaceMap t\<close> is the ancestor chain of \<open>t\<close> as far as it is walked: \<open>t\<close> and
  the spaces reached from it by parent pointers, up to and not including an empty id,
  \<open>root\<close>, or an id that does not resolve.
\<close>

inductive_set subtree :: "Space list \<Rightarrow> string set \<Rightarrow> string set" for spaces :: "Space list" and S :: "string set" where
  top: "x \<in> S \<Longrightarrow> x \<in> subtree spaces S"
| child: "sp \<in> set spaces \<Longrightarrow> space_ParentSpace sp = Some p \<Longrightarrow> p \<in> subtree spaces S \<Longrightarrow>
          space_ID sp \<in> subtree spaces S"

inductive_set chain :: "(string \<rightharpoonup> Space) \<Rightarrow> string \<Rightarrow> string set" for spaceMap :: "string \<rightharpoonup> Space" and t :: string where
  start: "t \<noteq> [] \<Longrightarrow> t \<noteq> ''root'' \<Longrightarrow> spaceMap t = Some sp \<Longrightarrow> t \<in> chain spaceMap t"
| up: "c \<in> chain spaceMap t \<Longrightarrow> spaceMap c = Some sp \<Longrightarrow> space_ParentSpace sp = Some p \<Longrightarrow>
       p \<noteq> [] \<Longrightarrow> p \<noteq> ''root'' \<Longrightarrow> spaceMap p = Some sp' \<Longrightarrow> p \<in> chain spaceMap t"

text \<open>
  A manifest with a cross-space reference: the stack in infra-prod attaches the
  context c1, which lives in the space shared below root; one AWS integration lives in
  root, another in the space elsewhere. \<open>crossRefFiltered\<close> is what filtering by
  infra-prod is expected to give.
\<close>

definition crossRef :: Manifest where
  "crossRef =
     \<lparr>SourceURL = ''https://source.example'',
      Spaces = [mkSpace ''root'' ''root'' None, mkSpace ''infra'' ''infra'' (Some ''root''),
                mkSpace ''infra-prod'' ''infra-prod'' (Some ''infra''),
                mkSpace ''shared'' ''shared'' (Some ''root''),
                mkSpace ''elsewhere'' ''elsewhere'' (Some ''root'')],
      Stacks = [(mkStack ''s1'' ''S1'' ''infra-prod'')
                  \<lparr>stack_AttachedContexts := [\<lparr>catt_ID = ''a1'', catt_ContextID = ''c1'', catt_Priority = 0\<rparr>]\<rparr>,
                mkStack ''s9'' ''S9'' ''elsewhere''],
      Contexts = [\<lparr>ctx_ID = ''c1'', ctx_Name = ''C1'', ctx_Space = ''shared'', ctx_Config = []\<rparr>,
                  \<lparr>ctx_ID = ''c9'', ctx_Name = ''C9'', ctx_Space = ''elsewhere'', ctx_Config = []\<rparr>],
      Policies = [],
      AWSIntegrations =
        [\<lparr>aws_ID = ''i1'', aws_Name = ''one'', aws_RoleARN = ''arn-1'', aws_Space = ''root''\<rparr>,
         \<lparr>aws_ID = ''i2'', aws_Name = ''two'', aws_RoleARN = ''arn-2'', aws_Space = ''elsewhere''\<rparr>],
      AzureIntegrations = []\<rparr>"

definition crossRefFiltered :: Manifest where
  "crossRefFiltered =
     \<lparr>SourceURL = ''https://source.example'',
      Spaces = [mkSpace ''infra'' ''infra'' (Some ''root''),
                mkSpace ''infra-prod'' ''infra-prod'' (Some ''infra''),
                mkSpace ''shared'' ''shared'' (Some ''root'')],
      Stacks = [(mkStack ''s1'' ''S1'' ''infra-prod'')
                  \<lparr>stack_AttachedContexts := [\<lparr>catt_ID = ''a1'', catt_ContextID = ''c1'', catt_Priority = 0\<rparr>]\<rparr>],
      Contexts = [\<lparr>ctx_ID = ''c1'', ctx_Name = ''C1'', ctx_Space = ''shared'', ctx_Config = []\<rparr>],
      Policies = [],
      AWSIntegrations =
        [\<lparr>aws_ID = ''i1'', aws_Name = ''one'', aws_RoleARN = ''arn-1'', aws_Space = ''root''\<rparr>],
      AzureIntegrations = []\<rparr>"

text \<open>
  The owners' chains: the ancestor chains of the spaces that own a context or a policy
  attached to one of the given stacks.
\<close>

definition ownerChains :: "Manifest \<Rightarrow> Stack list \<Rightarrow> string set" where
  "ownerChains m stacks =
     \<Union>{chain (spaceByID (Spaces m)) s | k s.
          k \<in> set (contextIDsOf stacks) \<and> contextSpaceMap (Contexts m) k = Some s} \<union>
     \<Union>{chain (spaceByID (Spaces m)) s | k s.
          k \<in> set (policyIDsOf stacks) \<and> policySpaceMap (Policies m) k = Some s}"

section \<open>State plan (cmd/spacebridge, state plan)\<close>

record plan_env =
  createDiscoveryService :: "error option"
  planStacks :: "error + Stack list"
  planSpaces :: "error + Space list"

record state_plan =
  ready :: "string list"
  blocked :: "string list"
  selfManaged :: "string list"
  nonTofu :: "string list"
  total :: nat

text \<open>The loop of \<open>runStatePlan\<close> over the selected stacks; \<open>selfManaged\<close> is its list \<open>skipped\<close>.\<close>

fun planStacksLoop :: "Stack list \<Rightarrow> state_plan \<Rightarrow> state_plan" where
  "planStacksLoop [] acc = acc"
| "planStacksLoop (stack # rest) acc =
     (if \<not> stack_ManagesStateFile stack then
        planStacksLoop rest (acc\<lparr>selfManaged := selfManaged acc @ [stack_Name stack]\<rparr>)
      else if \<not> IsTerraform stack then
        planStacksLoop rest
          (acc\<lparr>nonTofu := nonTofu acc @
             [stack_Name stack @ '' ('' @ friendlyVendorType (stack_VendorType stack) @ '')'']\<rparr>)
      else if stack_ExternalStateAccessEnabled stack then
        planStacksLoop rest (acc\<lparr>ready := ready acc @ [stack_Name stack]\<rparr>)
      else planStacksLoop rest (acc\<lparr>blocked := blocked acc @ [stack_Name stack]\<rparr>))"

definition planOf :: "Stack list \<Rightarrow> state_plan" where
  "planOf stacks =
     planStacksLoop stacks
       \<lparr>ready = [], blocked = [], selfManaged = [], nonTofu = [], total = length stacks\<rparr>"

definition runStatePlan :: "plan_env \<Rightarrow> string \<Rightarrow> error + state_plan" where
  "runStatePlan env spaceFilter =
     (case createDiscoveryService env of
        Some e \<Rightarrow> Inl e
      | None \<Rightarrow>
         (case planStacks env of
            Inl e \<Rightarrow> Inl (Wrap ''failed to discover stacks'' e)
          | Inr stacks \<Rightarrow>
              if spaceFilter \<noteq> [] then
                (case resolveSpaceFilter (planSpaces env) spaceFilter of
                   Inl e \<Rightarrow> Inl e
                 | Inr (spaceID, spaceName) \<Rightarrow> Inr (planOf (stacksOfSpace spaceID stacks)))
              else Inr (planOf stacks)))"

text \<open>The discovery environment of \<open>state plan\<close> over the scenario manifest.\<close>

definition scenarioPlanEnv :: plan_env where
  "scenarioPlanEnv =
     \<lparr>createDiscoveryService = None, planStacks = Inr (Stacks scenario),
      planSpaces = Inr (Spaces scenario)\<rparr>"

text \<open>
  Source and destination stacks for an example of the classification: two destination
  stacks share the name A; the source stacks A to E meet the five dispositions.
\<close>

definition exampleDests :: "Stack list" where
  "exampleDests = [mkStack ''d1'' ''A'' ''root'', mkStack ''d2'' ''A'' ''root'']"

definition exampleSources :: "Stack list" where
  "exampleSources =
     [mkStack ''a'' ''A'' ''root'',
      mkStack ''b'' ''B'' ''root'',
      (mkStack ''c'' ''C'' ''root'')\<lparr>stack_ExternalStateAccessEnabled := False\<rparr>,
      (mkStack ''d'' ''D'' ''root'')\<lparr>stack_ManagesStateFile := False\<rparr>,
      (mkStack ''e'' ''E'' ''root'')\<lparr>stack_VendorType := ''StackConfigVendorAnsible''\<rparr>]"

section \<open>Theorems\<close>

subsection \<open>C8: success of the raw streaming calls\<close>

text \<open>
  C8 as stated (success is any 2xx status) fails: a download answered with 206 and an
  upload answered with 202 are both errors, although 206 and 202 lie in the 2xx range.
\<close>

theorem C8_any_2xx_counterexample:
  "200 \<le> (206::int) \<and> (206::int) < 300 \<and>
   StreamStateFromURL (answering 206) ''u'' = Inl (StatusErr ''download returned status'' 206) \<and>
   200 \<le> (202::int) \<and> (202::int) < 300 \<and>
   UploadStateToURL (answering 202) ''u'' ''{}'' 3 = Some (StatusErr ''upload returned status'' 202)"
  by (simp add: StreamStateFromURL_def UploadStateToURL_def answering_def)

text \<open>
  C8, amended: once the request has been built and answered, streamDownload returns the
  body and the response's content length iff the status is exactly 200, and
  streamUpload succeeds iff the status is 200, 201 or 204; every other status is an error.
\<close>

theorem C8_status_codes:
  assumes "newRequest h ''GET'' u = None" and "doRequest h ''GET'' u = Inr resp"
    and "newRequest h ''PUT'' v = None" and "doRequest h ''PUT'' v = Inr resp'"
  shows "(StreamStateFromURL h u = Inr (Body resp, ContentLength resp) \<longleftrightarrow> StatusCode resp = 200) \<and>
         ((\<exists>e. StreamStateFromURL h u = Inl e) \<longleftrightarrow> StatusCode resp \<noteq> 200) \<and>
         (UploadStateToURL h v d n = None \<longleftrightarrow> StatusCode resp' \<in> {200, 201, 204}) \<and>
         ((\<exists>e. UploadStateToURL h v d n = Some e) \<longleftrightarrow> StatusCode resp' \<notin> {200, 201, 204})"
proof -
  have down: "StreamStateFromURL h u =
      (if StatusCode resp \<noteq> 200 then Inl (StatusErr ''download returned status'' (StatusCode resp))
       else Inr (Body resp, ContentLength resp))"
    using assms(1,2) by (simp add: StreamStateFromURL_def)
  have up: "UploadStateToURL h v d n =
      (if StatusCode resp' \<noteq> 200 \<and> StatusCode resp' \<noteq> 201 \<and> StatusCode resp' \<noteq> 204
       then Some (StatusErr ''upload returned status'' (StatusCode resp')) else None)"
    using assms(3,4) by (simp add: UploadStateToURL_def)
  show ?thesis unfolding down up by auto
qed

theorem C8_status_codes_witness:
  "newRequest (answering 201) ''GET'' ''u'' = None \<and>
   doRequest (answering 201) ''GET'' ''u'' = Inr \<lparr>StatusCode = 201, ContentLength = 3, Body = ''{}''\<rparr> \<and>
   newRequest (answering 201) ''PUT'' ''v'' = None \<and>
   doRequest (answering 201) ''PUT'' ''v'' = Inr \<lparr>StatusCode = 201, ContentLength = 3, Body = ''{}''\<rparr> \<and>
   (\<exists>e. StreamStateFromURL (answering 201) ''u'' = Inl e) \<and>
   UploadStateToURL (answering 201) ''v'' ''{}'' 3 = None"
  using C8_status_codes [of "answering 201" "''u''"
      "\<lparr>StatusCode = 201, ContentLength = 3, Body = ''{}''\<rparr>" "''v''"
      "\<lparr>StatusCode = 201, ContentLength = 3, Body = ''{}''\<rparr>" "''{}''" 3]
  by (simp add: answering_def)


subsection \<open>C6: resolving a space filter token\<close>

lemma spaceByID_snoc: "spaceByID (xs @ [x]) = (spaceByID xs)(space_ID x \<mapsto> x)"
  by (simp add: spaceByID_def)

lemma spaceByID_last:
  "spaceByID spaces k = (case filter (\<lambda>sp. space_ID sp = k) spaces of [] \<Rightarrow> None | xs \<Rightarrow> Some (last xs))"
proof (induction spaces rule: rev_induct)
  case Nil show ?case by (simp add: spaceByID_def)
next
  case (snoc x xs)
  then show ?case by (auto simp: spaceByID_snoc split: list.splits)
qed

lemma spaceByID_None: "spaceByID spaces k = None \<longleftrightarrow> k \<notin> space_ID ` set spaces"
  by (induction spaces rule: rev_induct) (auto simp: spaceByID_snoc spaceByID_def)

lemma spaceByID_Some: "spaceByID spaces k = Some sp \<Longrightarrow> sp \<in> set spaces \<and> space_ID sp = k"
proof -
  assume a: "spaceByID spaces k = Some sp"
  then have ne: "filter (\<lambda>sp. space_ID sp = k) spaces \<noteq> []" and l: "sp = last (filter (\<lambda>sp. space_ID sp = k) spaces)"
    by (auto simp: spaceByID_last split: list.splits)
  from last_in_set[OF ne] l show ?thesis by auto
qed

lemma scanHyphens_None:
  "scanHyphens m f n = None \<longleftrightarrow> (\<forall>i<n. f ! i = CHR ''-'' \<longrightarrow> m (drop (Suc i) f) = None)"
  by (induction n) (auto simp: less_Suc_eq split: option.splits)

lemma scanHyphens_Some:
  "scanHyphens m f n = Some sp \<Longrightarrow>
     \<exists>i<n. f ! i = CHR ''-'' \<and> m (drop (Suc i) f) = Some sp \<and>
        (\<forall>j. i < j \<and> j < n \<and> f ! j = CHR ''-'' \<longrightarrow> m (drop (Suc j) f) = None)"
proof (induction n)
  case 0 then show ?case by simp
next
  case (Suc n)
  show ?case
  proof (cases "f ! n = CHR ''-'' \<and> m (drop (Suc n) f) \<noteq> None")
    case True
    with Suc.prems have "m (drop (Suc n) f) = Some sp" by auto
    with True show ?thesis by (intro exI[of _ n]) auto
  next
    case False
    with Suc.prems have "scanHyphens m f n = Some sp" by (auto split: option.splits if_splits)
    from Suc.IH[OF this] obtain i where i: "i < n" "f ! i = CHR ''-''" "m (drop (Suc i) f) = Some sp"
      "\<forall>j. i < j \<and> j < n \<and> f ! j = CHR ''-'' \<longrightarrow> m (drop (Suc j) f) = None" by blast
    show ?thesis
      apply (rule exI[of _ i])
      using i False by (auto simp: less_Suc_eq)
  qed
qed

lemma hyphen_split_iff:
  "(\<exists>p. f = p @ CHR ''-'' # s) \<longleftrightarrow> (\<exists>i<length f. f ! i = CHR ''-'' \<and> drop (Suc i) f = s)"
proof
  assume "\<exists>p. f = p @ CHR ''-'' # s"
  then obtain p where "f = p @ CHR ''-'' # s" by blast
  then show "\<exists>i<length f. f ! i = CHR ''-'' \<and> drop (Suc i) f = s"
    by (intro exI[of _ "length p"]) auto
next
  assume "\<exists>i<length f. f ! i = CHR ''-'' \<and> drop (Suc i) f = s"
  then obtain i where "i < length f" "f ! i = CHR ''-''" "drop (Suc i) f = s" by blast
  then have "f = take i f @ CHR ''-'' # s" by (metis id_take_nth_drop)
  then show "\<exists>p. f = p @ CHR ''-'' # s" by blast
qed

lemma spaceByID_in: "k \<in> space_ID ` set spaces \<Longrightarrow>
    spaceByID spaces k = Some (last (filter (\<lambda>sp. space_ID sp = k) spaces))"
  using spaceByID_None[of spaces k] by (auto simp: spaceByID_last split: list.splits)

lemma find_first:
  "find P xs = Some x \<Longrightarrow> \<exists>pre post. xs = pre @ x # post \<and> P x \<and> (\<forall>y\<in>set pre. \<not> P y)"
proof (induction xs)
  case Nil then show ?case by simp
next
  case (Cons a xs)
  show ?case
  proof (cases "P a")
    case True
    with Cons.prems have "x = a" by simp
    with True show ?thesis by (intro exI[of _ "[]"] exI[of _ xs]) simp
  next
    case False
    with Cons.prems have "find P xs = Some x" by simp
    from Cons.IH[OF this] obtain pre post where "xs = pre @ x # post" "P x" "\<forall>y\<in>set pre. \<not> P y" by blast
    with False show ?thesis by (intro exI[of _ "a # pre"] exI[of _ post]) simp
  qed
qed

lemma scan_rightmost:
  assumes split: "flt = p @ CHR ''-'' # s" and known: "m s = Some sp"
    and least: "\<And>p' s'. flt = p' @ CHR ''-'' # s' \<Longrightarrow> length s' < length s \<Longrightarrow> m s' = None"
  shows "scanHyphens m flt (length flt) = Some sp"
proof -
  let ?i = "length p"
  have i: "?i < length flt" "flt ! ?i = CHR ''-''" "drop (Suc ?i) flt = s"
    using split by auto
  have "scanHyphens m flt (length flt) \<noteq> None"
    using i known by (auto simp: scanHyphens_None)
  then obtain sp' where sp': "scanHyphens m flt (length flt) = Some sp'" by blast
  from scanHyphens_Some[OF this] obtain k where k: "k < length flt" "flt ! k = CHR ''-''"
    "m (drop (Suc k) flt) = Some sp'"
    "\<forall>j. k < j \<and> j < length flt \<and> flt ! j = CHR ''-'' \<longrightarrow> m (drop (Suc j) flt) = None"
    by blast
  have "\<not> k < ?i" using k(4) i known by auto
  moreover have "\<not> ?i < k"
  proof
    assume lt: "?i < k"
    have "flt = take k flt @ CHR ''-'' # drop (Suc k) flt"
      using k(1,2) by (metis id_take_nth_drop)
    moreover have "length (drop (Suc k) flt) < length s"
      using lt k(1) i(3) by (metis diff_less_mono2 length_drop Suc_less_eq i(1) Suc_lessI not_less_eq)
    ultimately have "m (drop (Suc k) flt) = None" by (rule least)
    with k(3) show False by simp
  qed
  ultimately have "k = ?i" by simp
  with k(3) i(3) known sp' show ?thesis by simp
qed

text \<open>
  C6 as stated fails in its rule (3): the code does not stop at the last hyphen. For
  the token \<open>x-a-b\<close> and the single space id \<open>a-b\<close>, no id and no name equals the
  token and the suffix after the last hyphen, \<open>b\<close>, is not a space id, so the claim
  promises a lookup error; the code goes on to the hyphen before and resolves the token
  to \<open>a-b\<close>.
\<close>

theorem C6_last_hyphen_counterexample:
  "spaceByID [mkSpace ''a-b'' ''n'' None] ''x-a-b'' = None \<and>
   find (\<lambda>sp. space_Name sp = ''x-a-b'') [mkSpace ''a-b'' ''n'' None] = None \<and>
   lastHyphenSuffix ''x-a-b'' = Some ''b'' \<and>
   spaceByID [mkSpace ''a-b'' ''n'' None] ''b'' = None \<and>
   resolveSpaceFilter (Inr [mkSpace ''a-b'' ''n'' None]) ''x-a-b'' = Inr (''a-b'', ''n'')"
  by (simp add: resolveSpaceFilter_def spaceByID_def mkSpace_def lastHyphenSuffix_def)

text \<open>
  C6, amended: the token is resolved by the first rule that applies, in this order.
  (1) A space id equal to the token: that id, with the name of the last space carrying it.
  (2) Otherwise the first space, in discovery order, whose name equals the token.
  (3) Otherwise the hyphens of the token are tried from right to left, and the first
  one whose suffix is a known space id gives the result (the shortest such suffix).
  The result is an error iff no id, no name and no suffix after any hyphen matches, and
  the error is then "space not found".
\<close>

theorem C6_resolution_order:
  assumes ids: "ids = space_ID ` set spaces" and names: "names = space_Name ` set spaces"
    and res: "res = resolveSpaceFilter (Inr spaces) flt"
  shows "(flt \<in> ids \<longrightarrow>
            res = Inr (flt, space_Name (last (filter (\<lambda>sp. space_ID sp = flt) spaces)))) \<and>
         (flt \<notin> ids \<and> flt \<in> names \<longrightarrow>
            (\<exists>pre sp post. spaces = pre @ sp # post \<and> space_Name sp = flt \<and>
               (\<forall>x\<in>set pre. space_Name x \<noteq> flt) \<and> res = Inr (space_ID sp, flt))) \<and>
         (flt \<notin> ids \<and> flt \<notin> names \<longrightarrow>
            (\<forall>p s. flt = p @ CHR ''-'' # s \<and> s \<in> ids \<and>
               (\<forall>p' s'. flt = p' @ CHR ''-'' # s' \<and> length s' < length s \<longrightarrow> s' \<notin> ids) \<longrightarrow>
               res = Inr (s, space_Name (last (filter (\<lambda>sp. space_ID sp = s) spaces))))) \<and>
         ((\<exists>e. res = Inl e) \<longleftrightarrow>
            flt \<notin> ids \<and> flt \<notin> names \<and> (\<forall>p s. flt = p @ CHR ''-'' # s \<longrightarrow> s \<notin> ids)) \<and>
         (\<forall>e. res = Inl e \<longrightarrow> e = Err (''space not found: '' @ flt))"
proof -
  let ?m = "spaceByID spaces"
  have r1: "flt \<in> ids \<longrightarrow> res = Inr (flt, space_Name (last (filter (\<lambda>sp. space_ID sp = flt) spaces)))"
  proof
    assume "flt \<in> ids"
    then have m: "?m flt = Some (last (filter (\<lambda>sp. space_ID sp = flt) spaces))"
      using ids by (simp add: spaceByID_in)
    from spaceByID_Some[OF m] show "res = Inr (flt, space_Name (last (filter (\<lambda>sp. space_ID sp = flt) spaces)))"
      using m by (simp add: res resolveSpaceFilter_def)
  qed
  have r2: "flt \<notin> ids \<and> flt \<in> names \<longrightarrow>
            (\<exists>pre sp post. spaces = pre @ sp # post \<and> space_Name sp = flt \<and>
               (\<forall>x\<in>set pre. space_Name x \<noteq> flt) \<and> res = Inr (space_ID sp, flt))"
  proof
    assume a: "flt \<notin> ids \<and> flt \<in> names"
    then have none: "?m flt = None" using ids by (simp add: spaceByID_None)
    from a names have "find (\<lambda>sp. space_Name sp = flt) spaces \<noteq> None"
      by (auto simp: find_None_iff)
    then obtain sp where f: "find (\<lambda>sp. space_Name sp = flt) spaces = Some sp" by blast
    from find_first[OF f] obtain pre post where
      "spaces = pre @ sp # post" "space_Name sp = flt" "\<forall>y\<in>set pre. space_Name y \<noteq> flt" by blast
    moreover have "res = Inr (space_ID sp, flt)"
      using none f \<open>space_Name sp = flt\<close> by (simp add: res resolveSpaceFilter_def)
    ultimately show "\<exists>pre sp post. spaces = pre @ sp # post \<and> space_Name sp = flt \<and>
               (\<forall>x\<in>set pre. space_Name x \<noteq> flt) \<and> res = Inr (space_ID sp, flt)" by blast
  qed
  have noname: "flt \<notin> names \<Longrightarrow> find (\<lambda>sp. space_Name sp = flt) spaces = None"
    using names by (auto simp: find_None_iff)
  have r3: "flt \<notin> ids \<and> flt \<notin> names \<longrightarrow>
            (\<forall>p s. flt = p @ CHR ''-'' # s \<and> s \<in> ids \<and>
               (\<forall>p' s'. flt = p' @ CHR ''-'' # s' \<and> length s' < length s \<longrightarrow> s' \<notin> ids) \<longrightarrow>
               res = Inr (s, space_Name (last (filter (\<lambda>sp. space_ID sp = s) spaces))))"
  proof (intro impI allI)
    fix p s
    assume a: "flt \<notin> ids \<and> flt \<notin> names"
      and b: "flt = p @ CHR ''-'' # s \<and> s \<in> ids \<and>
               (\<forall>p' s'. flt = p' @ CHR ''-'' # s' \<and> length s' < length s \<longrightarrow> s' \<notin> ids)"
    let ?sp = "last (filter (\<lambda>sp. space_ID sp = s) spaces)"
    have m: "?m s = Some ?sp" using b ids by (simp add: spaceByID_in)
    have "scanHyphens ?m flt (length flt) = Some ?sp"
    proof (rule scan_rightmost[where p = p and s = s and m = "?m"])
      show "flt = p @ CHR ''-'' # s" using b by simp
    next
      show "?m s = Some ?sp" by (rule m)
    next
      fix p' s' assume "flt = p' @ CHR ''-'' # s'" "length s' < length s"
      with b have "s' \<notin> ids" by blast
      then show "?m s' = None" using ids by (simp add: spaceByID_None)
    qed
    moreover have "?m flt = None" using a ids by (simp add: spaceByID_None)
    moreover have "space_ID ?sp = s" using spaceByID_Some[OF m] by simp
    ultimately show "res = Inr (s, space_Name ?sp)"
      using noname a by (simp add: res resolveSpaceFilter_def)
  qed
  have scanN: "scanHyphens ?m flt (length flt) = None \<longleftrightarrow> (\<forall>p s. flt = p @ CHR ''-'' # s \<longrightarrow> s \<notin> ids)"
  proof -
    have "(\<forall>p s. flt = p @ CHR ''-'' # s \<longrightarrow> s \<notin> ids) \<longleftrightarrow>
          (\<forall>s. (\<exists>p. flt = p @ CHR ''-'' # s) \<longrightarrow> ?m s = None)"
      using ids by (auto simp: spaceByID_None)
    also have "\<dots> \<longleftrightarrow> (\<forall>i<length flt. flt ! i = CHR ''-'' \<longrightarrow> ?m (drop (Suc i) flt) = None)"
      unfolding hyphen_split_iff by auto
    finally show ?thesis by (simp add: scanHyphens_None)
  qed
  have r4: "(\<exists>e. res = Inl e) \<longleftrightarrow>
            flt \<notin> ids \<and> flt \<notin> names \<and> (\<forall>p s. flt = p @ CHR ''-'' # s \<longrightarrow> s \<notin> ids)"
  proof (cases "?m flt")
    case (Some sp)
    then have "flt \<in> ids" using spaceByID_None[of spaces flt] ids by auto
    with Some show ?thesis by (simp add: res resolveSpaceFilter_def)
  next
    case None
    then have nid: "flt \<notin> ids" using ids by (simp add: spaceByID_None)
    show ?thesis
    proof (cases "find (\<lambda>sp. space_Name sp = flt) spaces")
      case (Some sp)
      then have "flt \<in> names" using names by (auto simp: find_Some_iff)
      with None Some show ?thesis by (simp add: res resolveSpaceFilter_def)
    next
      case fn: None
      then have "flt \<notin> names" using names by (auto simp: find_None_iff)
      with None fn nid scanN show ?thesis
        by (cases "scanHyphens ?m flt (length flt)") (auto simp: res resolveSpaceFilter_def)
    qed
  qed
  have r5: "\<forall>e. res = Inl e \<longrightarrow> e = Err (''space not found: '' @ flt)"
    by (auto simp: res resolveSpaceFilter_def split: option.splits)
  from r1 r2 r3 r4 r5 show ?thesis by blast
qed

text \<open>The token \<open>n-b\<close> is resolved by rule (3) to the space \<open>b\<close>.\<close>

theorem C6_resolution_order_witness:
  "''n-b'' \<notin> space_ID ` set [mkSpace ''b'' ''n'' None] \<and>
   ''n-b'' \<notin> space_Name ` set [mkSpace ''b'' ''n'' None] \<and>
   ''n-b'' = ''n'' @ CHR ''-'' # ''b'' \<and>
   ''b'' \<in> space_ID ` set [mkSpace ''b'' ''n'' None] \<and>
   resolveSpaceFilter (Inr [mkSpace ''b'' ''n'' None]) ''n-b'' = Inr (''b'', ''n'')"
proof -
  let ?spaces = "[mkSpace ''b'' ''n'' None]"
  have least: "\<forall>p' s'. ''n-b'' = p' @ CHR ''-'' # s' \<and> length s' < length ''b'' \<longrightarrow>
      s' \<notin> space_ID ` set ?spaces"
    by (auto simp: mkSpace_def)
  have pre: "''n-b'' \<notin> space_ID ` set ?spaces \<and> ''n-b'' \<notin> space_Name ` set ?spaces"
    by (simp add: mkSpace_def)
  have split: "''n-b'' = ''n'' @ CHR ''-'' # ''b'' \<and> ''b'' \<in> space_ID ` set ?spaces"
    by (simp add: mkSpace_def)
  from C6_resolution_order [OF refl refl refl, where spaces = ?spaces and flt = "''n-b''"] pre
  have "\<forall>p s. ''n-b'' = p @ CHR ''-'' # s \<and> s \<in> space_ID ` set ?spaces \<and>
      (\<forall>p' s'. ''n-b'' = p' @ CHR ''-'' # s' \<and> length s' < length s \<longrightarrow> s' \<notin> space_ID ` set ?spaces) \<longrightarrow>
      resolveSpaceFilter (Inr ?spaces) ''n-b'' =
        Inr (s, space_Name (last (filter (\<lambda>sp. space_ID sp = s) ?spaces)))"
    by blast
  from this[rule_format, of "''n''" "''b''"] split least
  have "resolveSpaceFilter (Inr ?spaces) ''n-b'' =
        Inr (''b'', space_Name (last (filter (\<lambda>sp. space_ID sp = ''b'') ?spaces)))"
    by blast
  then have "resolveSpaceFilter (Inr ?spaces) ''n-b'' = Inr (''b'', ''n'')"
    by (simp add: mkSpace_def)
  with pre split show ?thesis by blast
qed


subsection \<open>C2: classification of the source stacks\<close>

lemma destStackMap_snoc: "destStackMap (xs @ [x]) = (destStackMap xs)(stack_Name x \<mapsto> x)"
  by (simp add: destStackMap_def)

lemma destStackMap_last:
  "destStackMap dsts n =
     (if filter (\<lambda>d. stack_Name d = n) dsts = [] then None
      else Some (last (filter (\<lambda>d. stack_Name d = n) dsts)))"
proof (induction dsts rule: rev_induct)
  case Nil
  show ?case by (simp add: destStackMap_def)
next
  case (snoc x xs)
  then show ?case by (simp add: destStackMap_snoc)
qed

lemma classifyStacks_step:
  "classifyStacks (destStackMap dsts) (s # src) acc =
     classifyStacks (destStackMap dsts) src
       \<lparr>candidates = candidates acc @ candidateOf dsts s,
        skipped = skipped acc @ skipLineOf dsts s,
        notInDest = notInDest acc @ (if classify dsts s = BlockedNotInDestination then [stack_Name s] else []),
        noAccess = noAccess acc @ (if classify dsts s = BlockedNoAccess then [stack_Name s] else [])\<rparr>"
  by (cases acc) (simp add: classify_def candidateOf_def skipLineOf_def destStackMap_last)

lemma classifyStacks_acc:
  "classifyStacks (destStackMap dsts) src acc =
     \<lparr>candidates = candidates acc @ concat (map (candidateOf dsts) src),
      skipped = skipped acc @ concat (map (skipLineOf dsts) src),
      notInDest = notInDest acc @ map stack_Name (filter (\<lambda>s. classify dsts s = BlockedNotInDestination) src),
      noAccess = noAccess acc @ map stack_Name (filter (\<lambda>s. classify dsts s = BlockedNoAccess) src)\<rparr>"
proof (induction src arbitrary: acc)
  case Nil
  show ?case by simp
next
  case (Cons s src)
  show ?case
    unfolding classifyStacks_step Cons.IH by simp
qed

lemma partition_lengths:
  "length (concat (map (candidateOf dsts) src)) + length (concat (map (skipLineOf dsts) src)) +
   length (filter (\<lambda>s. classify dsts s = BlockedNotInDestination) src) +
   length (filter (\<lambda>s. classify dsts s = BlockedNoAccess) src) = length src"
proof (induction src)
  case Nil show ?case by simp
next
  case (Cons s src)
  show ?case using Cons.IH
    by (cases "classify dsts s") (simp_all add: candidateOf_def skipLineOf_def)
qed

text \<open>
  C2: the classification loop sorts every source stack into exactly one disposition,
  the one \<open>classify\<close> gives by testing, in this order, managesStateFile, the vendor,
  externalStateAccessEnabled and the presence of a destination stack of the same name.
  The four printed lists are the source stacks of the respective dispositions, in
  source order (the two skip dispositions share the list \<open>skipped\<close>), so their lengths
  add up to the number of source stacks. A candidate is paired through the name map,
  and the map gives, for a name, the last destination stack carrying it.
\<close>

theorem C2_classification:
  "candidates (classifyStacks (destStackMap dsts) src noStacks) = concat (map (candidateOf dsts) src) \<and>
   skipped (classifyStacks (destStackMap dsts) src noStacks) = concat (map (skipLineOf dsts) src) \<and>
   notInDest (classifyStacks (destStackMap dsts) src noStacks) =
     map stack_Name (filter (\<lambda>s. classify dsts s = BlockedNotInDestination) src) \<and>
   noAccess (classifyStacks (destStackMap dsts) src noStacks) =
     map stack_Name (filter (\<lambda>s. classify dsts s = BlockedNoAccess) src) \<and>
   length (candidates (classifyStacks (destStackMap dsts) src noStacks)) +
   length (skipped (classifyStacks (destStackMap dsts) src noStacks)) +
   length (notInDest (classifyStacks (destStackMap dsts) src noStacks)) +
   length (noAccess (classifyStacks (destStackMap dsts) src noStacks)) = length src \<and>
   destStackMap dsts n =
     (if filter (\<lambda>d. stack_Name d = n) dsts = [] then None
      else Some (last (filter (\<lambda>d. stack_Name d = n) dsts)))"
proof -
  have "classifyStacks (destStackMap dsts) src noStacks =
     \<lparr>candidates = concat (map (candidateOf dsts) src),
      skipped = concat (map (skipLineOf dsts) src),
      notInDest = map stack_Name (filter (\<lambda>s. classify dsts s = BlockedNotInDestination) src),
      noAccess = map stack_Name (filter (\<lambda>s. classify dsts s = BlockedNoAccess) src)\<rparr>"
    by (simp add: classifyStacks_acc noStacks_def)
  then show ?thesis
    using partition_lengths[of dsts src] destStackMap_last[of dsts n] by simp
qed


text \<open>
  The example: A is paired with the second destination stack named A, B is not in the
  destination, C has no external access, D and E are skipped.
\<close>

theorem C2_classification_witness:
  "candidates (classifyStacks (destStackMap exampleDests) exampleSources noStacks) =
     [\<lparr>Source = mkStack ''a'' ''A'' ''root'', Dest = mkStack ''d2'' ''A'' ''root''\<rparr>] \<and>
   skipped (classifyStacks (destStackMap exampleDests) exampleSources noStacks) =
     [''D (self-managed state)'', ''E (Ansible)''] \<and>
   notInDest (classifyStacks (destStackMap exampleDests) exampleSources noStacks) = [''B''] \<and>
   noAccess (classifyStacks (destStackMap exampleDests) exampleSources noStacks) = [''C'']"
proof -
  have c: "concat (map (candidateOf exampleDests) exampleSources) =
      [\<lparr>Source = mkStack ''a'' ''A'' ''root'', Dest = mkStack ''d2'' ''A'' ''root''\<rparr>]"
    by (simp add: candidateOf_def classify_def exampleDests_def exampleSources_def mkStack_def IsTerraform_def)
  have s: "concat (map (skipLineOf exampleDests) exampleSources) =
      [''D (self-managed state)'', ''E (Ansible)'']"
    by (simp add: skipLineOf_def classify_def exampleDests_def exampleSources_def mkStack_def
          IsTerraform_def friendlyVendorType_def)
  have n: "map stack_Name (filter (\<lambda>s. classify exampleDests s = BlockedNotInDestination) exampleSources) = [''B'']"
    by (simp add: classify_def exampleDests_def exampleSources_def mkStack_def IsTerraform_def)
  have a: "map stack_Name (filter (\<lambda>s. classify exampleDests s = BlockedNoAccess) exampleSources) = [''C'']"
    by (simp add: classify_def exampleDests_def exampleSources_def mkStack_def IsTerraform_def)
  from C2_classification [of exampleDests exampleSources "''A''"] show ?thesis
    unfolding c s n a by blast
qed

subsection \<open>C3: the transfer of one candidate\<close>

lemma newCalls_app: "calls st' = calls st @ xs \<Longrightarrow> newCalls st st' = xs"
  by (simp add: newCalls_def)

text \<open>
  C3: one step of the transfer loop, for the candidate \<open>c\<close> in the loop state \<open>st\<close>.
  If the download location, the upload location, the download stream or the upload
  fails, the candidate is counted as failed at once and the step adds no lock and no
  unlock call to the log. If the lock fails, the candidate is failed and nothing is
  unlocked. If the lock succeeds and the import fails, the unlock is still called and
  the candidate is failed. If the import succeeds the candidate is counted as succeeded;
  nothing is assumed about the answer to the final unlock, so its failure changes nothing.
\<close>

theorem C3_transfer_state_machine:
  assumes src: "src = stack_ID (Source c)" and dst: "dst = stack_ID (Dest c)"
    and st': "st' = migrateOne env c st"
  shows
    "(getStateDownloadURL env (calls st) src = Inl e1 \<longrightarrow>
        st' = failed st (calls st @ [Call_GetStateDownloadURL src]) \<and> filter isLocking (newCalls st st') = []) \<and>
     (getStateDownloadURL env (calls st) src = Inr url \<and>
      getStateUploadURL env (calls st @ [Call_GetStateDownloadURL src]) dst = Inl e2 \<longrightarrow>
        st' = failed st (calls st @ [Call_GetStateDownloadURL src, Call_GetStateUploadURL dst]) \<and>
        filter isLocking (newCalls st st') = []) \<and>
     (getStateDownloadURL env (calls st) src = Inr url \<and>
      getStateUploadURL env (calls st @ [Call_GetStateDownloadURL src]) dst = Inr up \<and>
      StreamStateFromURL (http env (calls st @ [Call_GetStateDownloadURL src, Call_GetStateUploadURL dst])) url = Inl e3 \<longrightarrow>
        st' = failed st (calls st @ [Call_GetStateDownloadURL src, Call_GetStateUploadURL dst,
                                     Call_StreamStateFromURL url]) \<and>
        filter isLocking (newCalls st st') = []) \<and>
     (getStateDownloadURL env (calls st) src = Inr url \<and>
      getStateUploadURL env (calls st @ [Call_GetStateDownloadURL src]) dst = Inr up \<and>
      StreamStateFromURL (http env (calls st @ [Call_GetStateDownloadURL src, Call_GetStateUploadURL dst])) url = Inr (rd, len) \<and>
      UploadStateToURL (http env (calls st @ [Call_GetStateDownloadURL src, Call_GetStateUploadURL dst,
                                              Call_StreamStateFromURL url])) (upload_URL up) rd len = Some e4 \<longrightarrow>
        st' = failed st (logStreamed c (calls st) url up len) \<and> filter isLocking (newCalls st st') = []) \<and>
     (streamed env c (calls st) url up rd len \<and>
      lockStack env (logStreamed c (calls st) url up len) dst = Some e5 \<longrightarrow>
        st' = failed st (logStreamed c (calls st) url up len @ [Call_LockStack dst]) \<and>
        filter isLocking (newCalls st st') = [Call_LockStack dst]) \<and>
     (streamed env c (calls st) url up rd len \<and>
      lockStack env (logStreamed c (calls st) url up len) dst = None \<and>
      importManagedState env (logStreamed c (calls st) url up len @ [Call_LockStack dst]) dst (upload_ObjectID up) = Some e6 \<longrightarrow>
        st' = failed st (logStreamed c (calls st) url up len @
                 [Call_LockStack dst, Call_ImportManagedState dst (upload_ObjectID up), Call_UnlockStack dst]) \<and>
        filter isLocking (newCalls st st') = [Call_LockStack dst, Call_UnlockStack dst]) \<and>
     (streamed env c (calls st) url up rd len \<and>
      lockStack env (logStreamed c (calls st) url up len) dst = None \<and>
      importManagedState env (logStreamed c (calls st) url up len @ [Call_LockStack dst]) dst (upload_ObjectID up) = None \<longrightarrow>
        st' = succeeded st (logStreamed c (calls st) url up len @
                 [Call_LockStack dst, Call_ImportManagedState dst (upload_ObjectID up), Call_UnlockStack dst]) \<and>
        filter isLocking (newCalls st st') = [Call_LockStack dst, Call_UnlockStack dst])"
proof -
  note defs = st' migrateOne_def src dst newCalls_def failed_def succeeded_def
    streamed_def logStreamed_def Let_def
  have a1: "getStateDownloadURL env (calls st) src = Inl e1 \<longrightarrow>
        st' = failed st (calls st @ [Call_GetStateDownloadURL src]) \<and> filter isLocking (newCalls st st') = []"
    by (simp add: defs)
  have a2: "getStateDownloadURL env (calls st) src = Inr url \<and>
      getStateUploadURL env (calls st @ [Call_GetStateDownloadURL src]) dst = Inl e2 \<longrightarrow>
        st' = failed st (calls st @ [Call_GetStateDownloadURL src, Call_GetStateUploadURL dst]) \<and>
        filter isLocking (newCalls st st') = []"
    by (simp add: defs)
  have a3: "getStateDownloadURL env (calls st) src = Inr url \<and>
      getStateUploadURL env (calls st @ [Call_GetStateDownloadURL src]) dst = Inr up \<and>
      StreamStateFromURL (http env (calls st @ [Call_GetStateDownloadURL src, Call_GetStateUploadURL dst])) url = Inl e3 \<longrightarrow>
        st' = failed st (calls st @ [Call_GetStateDownloadURL src, Call_GetStateUploadURL dst,
                                     Call_StreamStateFromURL url]) \<and>
        filter isLocking (newCalls st st') = []"
    by (simp add: defs)
  have a4: "getStateDownloadURL env (calls st) src = Inr url \<and>
      getStateUploadURL env (calls st @ [Call_GetStateDownloadURL src]) dst = Inr up \<and>
      StreamStateFromURL (http env (calls st @ [Call_GetStateDownloadURL src, Call_GetStateUploadURL dst])) url = Inr (rd, len) \<and>
      UploadStateToURL (http env (calls st @ [Call_GetStateDownloadURL src, Call_GetStateUploadURL dst,
                                              Call_StreamStateFromURL url])) (upload_URL up) rd len = Some e4 \<longrightarrow>
        st' = failed st (logStreamed c (calls st) url up len) \<and> filter isLocking (newCalls st st') = []"
    by (simp add: defs)
  have b1: "streamed env c (calls st) url up rd len \<and>
      lockStack env (logStreamed c (calls st) url up len) dst = Some e5 \<longrightarrow>
        st' = failed st (logStreamed c (calls st) url up len @ [Call_LockStack dst]) \<and>
        filter isLocking (newCalls st st') = [Call_LockStack dst]"
    by (simp add: defs)
  have b2: "streamed env c (calls st) url up rd len \<and>
      lockStack env (logStreamed c (calls st) url up len) dst = None \<and>
      importManagedState env (logStreamed c (calls st) url up len @ [Call_LockStack dst]) dst (upload_ObjectID up) = Some e6 \<longrightarrow>
        st' = failed st (logStreamed c (calls st) url up len @
                 [Call_LockStack dst, Call_ImportManagedState dst (upload_ObjectID up), Call_UnlockStack dst]) \<and>
        filter isLocking (newCalls st st') = [Call_LockStack dst, Call_UnlockStack dst]"
    by (simp add: defs split: option.split)
  have b3: "streamed env c (calls st) url up rd len \<and>
      lockStack env (logStreamed c (calls st) url up len) dst = None \<and>
      importManagedState env (logStreamed c (calls st) url up len @ [Call_LockStack dst]) dst (upload_ObjectID up) = None \<longrightarrow>
        st' = succeeded st (logStreamed c (calls st) url up len @
                 [Call_LockStack dst, Call_ImportManagedState dst (upload_ObjectID up), Call_UnlockStack dst]) \<and>
        filter isLocking (newCalls st st') = [Call_LockStack dst, Call_UnlockStack dst]"
    by (simp add: defs split: option.split)
  from a1 a2 a3 a4 b1 b2 b3 show ?thesis by blast
qed

lemma migrateOne_counts:
  "(failCount (migrateOne env c st) = failCount st + 1 \<and> successCount (migrateOne env c st) = successCount st) \<or>
   (successCount (migrateOne env c st) = successCount st + 1 \<and> failCount (migrateOne env c st) = failCount st)"
  by (simp add: migrateOne_def failed_def succeeded_def Let_def split: sum.split option.split prod.split)

lemma scripted_streamed:
  "\<not> bad (Call_GetStateDownloadURL ''src-A'') \<Longrightarrow> \<not> bad (Call_GetStateUploadURL ''dst-A'') \<Longrightarrow>
   \<not> bad (Call_StreamStateFromURL ''dl-src-A'') \<Longrightarrow> \<not> bad (Call_UploadStateToURL ''ul-dst-A'' 3) \<Longrightarrow>
   streamed (scripted bad) (pair ''A'') [] ''dl-src-A''
     \<lparr>upload_URL = ''ul-dst-A'', upload_ObjectID = ''obj-dst-A''\<rparr> ''{}'' 3"
  by (simp add: streamed_def scripted_def pair_def mkStack_def StreamStateFromURL_def UploadStateToURL_def)

text \<open>
  Candidate A with a failing import and a failing unlock is failed after the unlock
  call; with only the unlock failing it is succeeded.
\<close>

theorem C3_transfer_state_machine_witness:
  "streamed (scripted importAndUnlockFail) (pair ''A'') [] ''dl-src-A''
     \<lparr>upload_URL = ''ul-dst-A'', upload_ObjectID = ''obj-dst-A''\<rparr> ''{}'' 3 \<and>
   unlockStack (scripted importAndUnlockFail)
     [Call_GetStateDownloadURL ''src-A'', Call_GetStateUploadURL ''dst-A'',
      Call_StreamStateFromURL ''dl-src-A'', Call_UploadStateToURL ''ul-dst-A'' 3, Call_Close,
      Call_LockStack ''dst-A'', Call_ImportManagedState ''dst-A'' ''obj-dst-A''] ''dst-A'' \<noteq> None \<and>
   migrateOne (scripted importAndUnlockFail) (pair ''A'') start =
     \<lparr>calls = [Call_GetStateDownloadURL ''src-A'', Call_GetStateUploadURL ''dst-A'',
               Call_StreamStateFromURL ''dl-src-A'', Call_UploadStateToURL ''ul-dst-A'' 3, Call_Close,
               Call_LockStack ''dst-A'', Call_ImportManagedState ''dst-A'' ''obj-dst-A'',
               Call_UnlockStack ''dst-A''],
      successCount = 0, failCount = 1\<rparr> \<and>
   streamed (scripted unlockFails) (pair ''A'') [] ''dl-src-A''
     \<lparr>upload_URL = ''ul-dst-A'', upload_ObjectID = ''obj-dst-A''\<rparr> ''{}'' 3 \<and>
   migrateOne (scripted unlockFails) (pair ''A'') start =
     \<lparr>calls = [Call_GetStateDownloadURL ''src-A'', Call_GetStateUploadURL ''dst-A'',
               Call_StreamStateFromURL ''dl-src-A'', Call_UploadStateToURL ''ul-dst-A'' 3, Call_Close,
               Call_LockStack ''dst-A'', Call_ImportManagedState ''dst-A'' ''obj-dst-A'',
               Call_UnlockStack ''dst-A''],
      successCount = 1, failCount = 0\<rparr>"
proof -
  let ?up = "\<lparr>upload_URL = ''ul-dst-A'', upload_ObjectID = ''obj-dst-A''\<rparr>"
  let ?c = "pair ''A''"
  have ids: "stack_ID (Source ?c) = ''src-A''" "stack_ID (Dest ?c) = ''dst-A''"
    by (simp_all add: pair_def mkStack_def)
  have s1: "streamed (scripted importAndUnlockFail) ?c [] ''dl-src-A'' ?up ''{}'' 3"
    by (rule scripted_streamed) (simp_all add: importAndUnlockFail_def)
  have s2: "streamed (scripted unlockFails) ?c [] ''dl-src-A'' ?up ''{}'' 3"
    by (rule scripted_streamed) (simp_all add: unlockFails_def)
  have u: "unlockStack (scripted importAndUnlockFail)
     [Call_GetStateDownloadURL ''src-A'', Call_GetStateUploadURL ''dst-A'',
      Call_StreamStateFromURL ''dl-src-A'', Call_UploadStateToURL ''ul-dst-A'' 3, Call_Close,
      Call_LockStack ''dst-A'', Call_ImportManagedState ''dst-A'' ''obj-dst-A''] ''dst-A'' \<noteq> None"
    by (simp add: scripted_def importAndUnlockFail_def)
  have l1: "lockStack (scripted importAndUnlockFail) (logStreamed ?c (calls start) ''dl-src-A'' ?up 3) ''dst-A'' = None"
    by (simp add: scripted_def importAndUnlockFail_def)
  have i1: "importManagedState (scripted importAndUnlockFail)
      (logStreamed ?c (calls start) ''dl-src-A'' ?up 3 @ [Call_LockStack ''dst-A'']) ''dst-A'' (upload_ObjectID ?up)
      = Some (Err ''import refused'')"
    by (simp add: scripted_def importAndUnlockFail_def)
  have l2: "lockStack (scripted unlockFails) (logStreamed ?c (calls start) ''dl-src-A'' ?up 3) ''dst-A'' = None"
    by (simp add: scripted_def unlockFails_def)
  have i2: "importManagedState (scripted unlockFails)
      (logStreamed ?c (calls start) ''dl-src-A'' ?up 3 @ [Call_LockStack ''dst-A'']) ''dst-A'' (upload_ObjectID ?up)
      = None"
    by (simp add: scripted_def unlockFails_def)
  have st0: "calls start = []" by (simp add: start_def)
  from C3_transfer_state_machine [OF ids(1)[symmetric] ids(2)[symmetric] refl,
      where env = "scripted importAndUnlockFail" and st = start and url = "''dl-src-A''"
        and up = ?up and rd = "''{}''" and len = 3 and ?e6.0 = "Err ''import refused''"]
    s1 l1 i1
  have m1: "migrateOne (scripted importAndUnlockFail) ?c start =
      failed start (logStreamed ?c (calls start) ''dl-src-A'' ?up 3 @
        [Call_LockStack ''dst-A'', Call_ImportManagedState ''dst-A'' (upload_ObjectID ?up), Call_UnlockStack ''dst-A''])"
    unfolding st0 by blast
  from C3_transfer_state_machine [OF ids(1)[symmetric] ids(2)[symmetric] refl,
      where env = "scripted unlockFails" and st = start and url = "''dl-src-A''"
        and up = ?up and rd = "''{}''" and len = 3]
    s2 l2 i2
  have m2: "migrateOne (scripted unlockFails) ?c start =
      succeeded start (logStreamed ?c (calls start) ''dl-src-A'' ?up 3 @
        [Call_LockStack ''dst-A'', Call_ImportManagedState ''dst-A'' (upload_ObjectID ?up), Call_UnlockStack ''dst-A''])"
    unfolding st0 by blast
  show ?thesis
    using s1 s2 u m1 m2
    by (simp add: failed_def succeeded_def logStreamed_def start_def ids)
qed


subsection \<open>C4: the transfer loop\<close>

lemma migrateOne_calls:
  "\<exists>xs. calls (migrateOne env c st) = calls st @ Call_GetStateDownloadURL (stack_ID (Source c)) # xs \<and>
        filter isDownloadURLCall xs = []"
  by (simp add: migrateOne_def failed_def succeeded_def Let_def split: sum.split option.split prod.split)


lemma migrateLoop_total:
  "successCount (migrateLoop env cs st) + failCount (migrateLoop env cs st) =
     successCount st + failCount st + length cs"
proof (induction cs arbitrary: st)
  case Nil show ?case by simp
next
  case (Cons c cs)
  show ?case using migrateOne_counts[of env c st] by (auto simp: Cons.IH)
qed

lemma migrateLoop_monotone:
  "successCount st \<le> successCount (migrateLoop env cs st) \<and> failCount st \<le> failCount (migrateLoop env cs st)"
proof (induction cs arbitrary: st)
  case Nil show ?case by simp
next
  case (Cons c cs)
  have "successCount (migrateOne env c st) \<le> successCount (migrateLoop env cs (migrateOne env c st)) \<and>
        failCount (migrateOne env c st) \<le> failCount (migrateLoop env cs (migrateOne env c st))"
    by (rule Cons.IH)
  then show ?case using migrateOne_counts[of env c st] by auto
qed

lemma migrateLoop_attempts:
  "\<exists>xs. calls (migrateLoop env cs st) = calls st @ xs \<and>
        filter isDownloadURLCall xs = map (\<lambda>c. Call_GetStateDownloadURL (stack_ID (Source c))) cs"
proof (induction cs arbitrary: st)
  case Nil show ?case by simp
next
  case (Cons c cs)
  obtain xs where xs: "calls (migrateOne env c st) = calls st @ Call_GetStateDownloadURL (stack_ID (Source c)) # xs"
    "filter isDownloadURLCall xs = []" using migrateOne_calls by blast
  obtain ys where ys: "calls (migrateLoop env cs (migrateOne env c st)) = calls (migrateOne env c st) @ ys"
    "filter isDownloadURLCall ys = map (\<lambda>c. Call_GetStateDownloadURL (stack_ID (Source c))) cs"
    using Cons.IH by blast
  show ?case
    by (rule exI[of _ "Call_GetStateDownloadURL (stack_ID (Source c)) # xs @ ys"]) (simp add: xs ys)
qed

lemma migrateOne_logFree:
  assumes "logFree env"
  shows "migrateOne env c st =
     \<lparr>calls = calls st @ calls (migrateOne env c start),
      successCount = successCount st + successCount (migrateOne env c start),
      failCount = failCount st + failCount (migrateOne env c start)\<rparr>"
proof -
  define f1 where "f1 = getStateDownloadURL env []"
  define f2 where "f2 = getStateUploadURL env []"
  define f3 where "f3 = http env []"
  define f4 where "f4 = lockStack env []"
  define f5 where "f5 = importManagedState env []"
  define f6 where "f6 = unlockStack env []"
  have e: "\<And>log. getStateDownloadURL env log = f1" "\<And>log. getStateUploadURL env log = f2"
    "\<And>log. http env log = f3" "\<And>log. lockStack env log = f4"
    "\<And>log. importManagedState env log = f5" "\<And>log. unlockStack env log = f6"
    using assms unfolding logFree_def f1_def f2_def f3_def f4_def f5_def f6_def by blast+
  show ?thesis
    by (cases st)
       (simp add: migrateOne_def e failed_def succeeded_def start_def Let_def
          split: sum.split option.split prod.split)
qed

lemma migrateLoop_logFree:
  assumes "logFree env"
  shows "migrateLoop env cs st =
     \<lparr>calls = calls st @ concat (map (\<lambda>c. calls (migrateOne env c start)) cs),
      successCount = successCount st + length (filter (\<lambda>c. successCount (migrateOne env c start) = 1) cs),
      failCount = failCount st + length (filter (\<lambda>c. failCount (migrateOne env c start) = 1) cs)\<rparr>"
proof (induction cs arbitrary: st)
  case Nil show ?case by simp
next
  case (Cons c cs)
  have one: "(failCount (migrateOne env c start) = 1 \<and> successCount (migrateOne env c start) = 0) \<or>
             (successCount (migrateOne env c start) = 1 \<and> failCount (migrateOne env c start) = 0)"
    using migrateOne_counts[of env c start] by (simp add: start_def)
  show ?case
    unfolding migrateLoop.simps Cons.IH
    using one by (subst (1 2 3) migrateOne_logFree[OF assms, of c st]) auto
qed

lemma runStateMigrate_reached:
  assumes "setupOK env flt sid ss ds"
  shows "runStateMigrate env dryRun flt =
     (if candidates (classifyStacks (destStackMap ds) (if sid \<noteq> [] then stacksOfSpace sid ss else ss) noStacks) = []
         \<or> dryRun
      then planOnly (classifyStacks (destStackMap ds) (if sid \<noteq> [] then stacksOfSpace sid ss else ss) noStacks)
      else performMigration (transfer env)
             (classifyStacks (destStackMap ds) (if sid \<noteq> [] then stacksOfSpace sid ss else ss) noStacks))"
proof (cases "flt = []")
  case True
  with assms show ?thesis by (simp add: setupOK_def runStateMigrate_def Let_def)
next
  case False
  with assms obtain nm where "resolveSpaceFilter (sourceSpaces env) flt = Inr (sid, nm)"
    by (auto simp: setupOK_def)
  with assms False show ?thesis by (simp add: setupOK_def runStateMigrate_def Let_def)
qed

lemma scripted_logFree: "logFree (scripted bad)"
  by (simp add: logFree_def scripted_def)

lemma performMigration_error:
  "(rep_error (performMigration env p) \<noteq> None \<longleftrightarrow> 0 < rep_failed (performMigration env p)) \<and>
   rep_succeeded (performMigration env p) + rep_failed (performMigration env p) = length (candidates p)"
  using migrateLoop_total[of env "candidates p" "\<lparr>calls = [], successCount = 0, failCount = 0\<rparr>"]
  by (simp add: performMigration_def Let_def)

lemma runStateMigrate_error:
  "rep_plan (runStateMigrate env dryRun flt) \<noteq> None \<Longrightarrow>
     (rep_error (runStateMigrate env dryRun flt) \<noteq> None) = (0 < rep_failed (runStateMigrate env dryRun flt))"
  using performMigration_error
  by (auto simp: runStateMigrate_def aborted_def planOnly_def Let_def
        split: option.splits sum.splits if_splits prod.splits)

text \<open>
  C4: the transfer loop, from any loop state, counts every candidate exactly once as
  succeeded or failed, and asks for the download location of every candidate, in
  order: a failure never ends the loop. The log and the success counter only grow
  (nothing is undone). In an environment whose answers do not depend on earlier calls,
  each candidate is processed exactly as if it were the only one, whatever happened to
  the others. Once the plan has been made, the command returns an error iff the
  failure counter is positive.
\<close>

theorem C4_pipeline_isolation:
  "successCount (migrateLoop env cs st) + failCount (migrateLoop env cs st) =
     successCount st + failCount st + length cs \<and>
   (\<exists>xs. calls (migrateLoop env cs st) = calls st @ xs \<and>
      filter isDownloadURLCall xs = map (\<lambda>c. Call_GetStateDownloadURL (stack_ID (Source c))) cs) \<and>
   successCount st \<le> successCount (migrateLoop env cs st) \<and>
   (logFree env \<longrightarrow>
      migrateLoop env cs st =
        \<lparr>calls = calls st @ concat (map (\<lambda>c. calls (migrateOne env c start)) cs),
         successCount = successCount st + length (filter (\<lambda>c. successCount (migrateOne env c start) = 1) cs),
         failCount = failCount st + length (filter (\<lambda>c. failCount (migrateOne env c start) = 1) cs)\<rparr>) \<and>
   (rep_error (performMigration env p) \<noteq> None \<longleftrightarrow> 0 < rep_failed (performMigration env p)) \<and>
   rep_succeeded (performMigration env p) + rep_failed (performMigration env p) = length (candidates p) \<and>
   (rep_plan (runStateMigrate menv dryRun flt) \<noteq> None \<longrightarrow>
      (rep_error (runStateMigrate menv dryRun flt) \<noteq> None \<longleftrightarrow>
       0 < rep_failed (runStateMigrate menv dryRun flt)))"
proof -
  have iso: "logFree env \<longrightarrow>
      migrateLoop env cs st =
        \<lparr>calls = calls st @ concat (map (\<lambda>c. calls (migrateOne env c start)) cs),
         successCount = successCount st + length (filter (\<lambda>c. successCount (migrateOne env c start) = 1) cs),
         failCount = failCount st + length (filter (\<lambda>c. failCount (migrateOne env c start) = 1) cs)\<rparr>"
    using migrateLoop_logFree by blast
  have err: "rep_plan (runStateMigrate menv dryRun flt) \<noteq> None \<longrightarrow>
      (rep_error (runStateMigrate menv dryRun flt) \<noteq> None \<longleftrightarrow>
       0 < rep_failed (runStateMigrate menv dryRun flt))"
    using runStateMigrate_error by blast
  from migrateLoop_total[of env cs st] migrateLoop_attempts[of env cs st]
    migrateLoop_monotone[of st env cs] iso performMigration_error[of env p] err
  show ?thesis by blast
qed

lemma run_A: "migrateOne (scripted downloadOfBFails) (pair ''A'') start =
   \<lparr>calls = [Call_GetStateDownloadURL ''src-A'', Call_GetStateUploadURL ''dst-A'',
             Call_StreamStateFromURL ''dl-src-A'', Call_UploadStateToURL ''ul-dst-A'' 3, Call_Close,
             Call_LockStack ''dst-A'', Call_ImportManagedState ''dst-A'' ''obj-dst-A'',
             Call_UnlockStack ''dst-A''],
    successCount = 1, failCount = 0\<rparr>"
  by (simp add: migrateOne_def scripted_def downloadOfBFails_def pair_def mkStack_def start_def
        StreamStateFromURL_def UploadStateToURL_def failed_def succeeded_def Let_def)

lemma run_B: "migrateOne (scripted downloadOfBFails) (pair ''B'') start =
   \<lparr>calls = [Call_GetStateDownloadURL ''src-B'', Call_GetStateUploadURL ''dst-B'',
             Call_StreamStateFromURL ''dl-src-B''],
    successCount = 0, failCount = 1\<rparr>"
  by (simp add: migrateOne_def scripted_def downloadOfBFails_def pair_def mkStack_def start_def
        StreamStateFromURL_def UploadStateToURL_def failed_def succeeded_def Let_def)

lemma run_C: "migrateOne (scripted downloadOfBFails) (pair ''C'') start =
   \<lparr>calls = [Call_GetStateDownloadURL ''src-C'', Call_GetStateUploadURL ''dst-C'',
             Call_StreamStateFromURL ''dl-src-C'', Call_UploadStateToURL ''ul-dst-C'' 3, Call_Close,
             Call_LockStack ''dst-C'', Call_ImportManagedState ''dst-C'' ''obj-dst-C'',
             Call_UnlockStack ''dst-C''],
    successCount = 1, failCount = 0\<rparr>"
  by (simp add: migrateOne_def scripted_def downloadOfBFails_def pair_def mkStack_def start_def
        StreamStateFromURL_def UploadStateToURL_def failed_def succeeded_def Let_def)

text \<open>
  The candidates A, B, C with B's download failing: A and C are transferred in full,
  B stops after its download, and one failure is counted.
\<close>

theorem C4_pipeline_isolation_witness:
  "logFree (scripted downloadOfBFails) \<and>
   migrateLoop (scripted downloadOfBFails) [pair ''A'', pair ''B'', pair ''C''] start =
     \<lparr>calls = [Call_GetStateDownloadURL ''src-A'', Call_GetStateUploadURL ''dst-A'',
               Call_StreamStateFromURL ''dl-src-A'', Call_UploadStateToURL ''ul-dst-A'' 3, Call_Close,
               Call_LockStack ''dst-A'', Call_ImportManagedState ''dst-A'' ''obj-dst-A'',
               Call_UnlockStack ''dst-A'',
               Call_GetStateDownloadURL ''src-B'', Call_GetStateUploadURL ''dst-B'',
               Call_StreamStateFromURL ''dl-src-B'',
               Call_GetStateDownloadURL ''src-C'', Call_GetStateUploadURL ''dst-C'',
               Call_StreamStateFromURL ''dl-src-C'', Call_UploadStateToURL ''ul-dst-C'' 3, Call_Close,
               Call_LockStack ''dst-C'', Call_ImportManagedState ''dst-C'' ''obj-dst-C'',
               Call_UnlockStack ''dst-C''],
      successCount = 2, failCount = 1\<rparr>"
proof -
  have lf: "logFree (scripted downloadOfBFails)" by (rule scripted_logFree)
  from C4_pipeline_isolation [where env = "scripted downloadOfBFails"
      and cs = "[pair ''A'', pair ''B'', pair ''C'']" and st = start] lf
  have "migrateLoop (scripted downloadOfBFails) [pair ''A'', pair ''B'', pair ''C''] start =
        \<lparr>calls = calls start @
           concat (map (\<lambda>c. calls (migrateOne (scripted downloadOfBFails) c start))
                     [pair ''A'', pair ''B'', pair ''C'']),
         successCount = successCount start +
           length (filter (\<lambda>c. successCount (migrateOne (scripted downloadOfBFails) c start) = 1)
                     [pair ''A'', pair ''B'', pair ''C'']),
         failCount = failCount start +
           length (filter (\<lambda>c. failCount (migrateOne (scripted downloadOfBFails) c start) = 1)
                     [pair ''A'', pair ''B'', pair ''C''])\<rparr>"
    by blast
  then have "migrateLoop (scripted downloadOfBFails) [pair ''A'', pair ''B'', pair ''C''] start =
     \<lparr>calls = [Call_GetStateDownloadURL ''src-A'', Call_GetStateUploadURL ''dst-A'',
               Call_StreamStateFromURL ''dl-src-A'', Call_UploadStateToURL ''ul-dst-A'' 3, Call_Close,
               Call_LockStack ''dst-A'', Call_ImportManagedState ''dst-A'' ''obj-dst-A'',
               Call_UnlockStack ''dst-A'',
               Call_GetStateDownloadURL ''src-B'', Call_GetStateUploadURL ''dst-B'',
               Call_StreamStateFromURL ''dl-src-B'',
               Call_GetStateDownloadURL ''src-C'', Call_GetStateUploadURL ''dst-C'',
               Call_StreamStateFromURL ''dl-src-C'', Call_UploadStateToURL ''ul-dst-C'' 3, Call_Close,
               Call_LockStack ''dst-C'', Call_ImportManagedState ''dst-C'' ''obj-dst-C'',
               Call_UnlockStack ''dst-C''],
      successCount = 2, failCount = 1\<rparr>"
    by (simp add: run_A run_B run_C) (simp add: start_def)
  with lf show ?thesis by blast
qed

subsection \<open>C7: the dry run\<close>

text \<open>
  C7: with \<open>--dry-run\<close> the command makes no transfer call at all (no download or
  upload location is requested, nothing is streamed, locked, imported or unlocked)
  and counts nothing; when configuration and discovery succeed it returns no error and
  reports the plan, which is the classification of the selected source stacks.
\<close>

theorem C7_dry_run:
  "rep_calls (runStateMigrate env True flt) = [] \<and>
   rep_succeeded (runStateMigrate env True flt) = 0 \<and>
   rep_failed (runStateMigrate env True flt) = 0 \<and>
   (setupOK env flt sid ss ds \<longrightarrow>
      runStateMigrate env True flt =
        planOnly (classifyStacks (destStackMap ds)
                    (if sid \<noteq> [] then stacksOfSpace sid ss else ss) noStacks))"
proof -
  have quiet: "rep_calls (runStateMigrate env True flt) = [] \<and>
      rep_succeeded (runStateMigrate env True flt) = 0 \<and> rep_failed (runStateMigrate env True flt) = 0"
    by (simp add: runStateMigrate_def aborted_def planOnly_def Let_def
          split: option.split sum.split prod.split)
  have plan: "setupOK env flt sid ss ds \<longrightarrow>
      runStateMigrate env True flt =
        planOnly (classifyStacks (destStackMap ds)
                    (if sid \<noteq> [] then stacksOfSpace sid ss else ss) noStacks)"
    using runStateMigrate_reached[of env flt sid ss ds True] by simp
  from quiet plan show ?thesis by blast
qed

lemma demo_setupOK: "setupOK (demoEnv bad ss ds) [] [] ss ds"
  by (simp add: setupOK_def demoEnv_def)

text \<open>
  One eligible stack and its destination: the dry run reports the pair and makes no
  call, the real run makes the eight calls of a full transfer.
\<close>

theorem C7_dry_run_witness:
  "setupOK (demoEnv (\<lambda>x. False) [mkStack ''src-A'' ''A'' ''infra-prod''] [mkStack ''dst-A'' ''A'' ''infra-prod'']) [] []
     [mkStack ''src-A'' ''A'' ''infra-prod''] [mkStack ''dst-A'' ''A'' ''infra-prod''] \<and>
   runStateMigrate (demoEnv (\<lambda>x. False) [mkStack ''src-A'' ''A'' ''infra-prod''] [mkStack ''dst-A'' ''A'' ''infra-prod'']) True [] =
     \<lparr>rep_error = None,
      rep_plan = Some \<lparr>candidates = [\<lparr>Source = mkStack ''src-A'' ''A'' ''infra-prod'',
                                       Dest = mkStack ''dst-A'' ''A'' ''infra-prod''\<rparr>],
                         skipped = [], notInDest = [], noAccess = []\<rparr>,
      rep_calls = [], rep_succeeded = 0, rep_failed = 0\<rparr> \<and>
   length (rep_calls (runStateMigrate (demoEnv (\<lambda>x. False) [mkStack ''src-A'' ''A'' ''infra-prod'']
                         [mkStack ''dst-A'' ''A'' ''infra-prod'']) False [])) = 8"
proof -
  let ?ss = "[mkStack ''src-A'' ''A'' ''infra-prod'']"
  let ?ds = "[mkStack ''dst-A'' ''A'' ''infra-prod'']"
  let ?env = "demoEnv (\<lambda>x. False) ?ss ?ds"
  have ok: "setupOK ?env [] [] ?ss ?ds" by (rule demo_setupOK)
  have cl: "classifyStacks (destStackMap ?ds) ?ss noStacks =
      \<lparr>candidates = [\<lparr>Source = mkStack ''src-A'' ''A'' ''infra-prod'',
                         Dest = mkStack ''dst-A'' ''A'' ''infra-prod''\<rparr>],
       skipped = [], notInDest = [], noAccess = []\<rparr>"
    by (simp add: destStackMap_def noStacks_def mkStack_def IsTerraform_def)
  from C7_dry_run [where env = ?env and flt = "[]" and sid = "[]" and ss = ?ss and ds = ?ds] ok
  have dry: "runStateMigrate ?env True [] = planOnly (classifyStacks (destStackMap ?ds) ?ss noStacks)"
    by (simp del: classifyStacks.simps)
  have real: "runStateMigrate ?env False [] =
      performMigration (scripted (\<lambda>x. False)) (classifyStacks (destStackMap ?ds) ?ss noStacks)"
  proof -
    have tr: "transfer ?env = scripted (\<lambda>x. False)" by (simp add: demoEnv_def)
    show ?thesis
      using runStateMigrate_reached[OF ok, of False]
      by (simp add: cl tr del: classifyStacks.simps)
  qed
  have "length (rep_calls (runStateMigrate ?env False [])) = 8"
    unfolding real cl
    by (simp add: performMigration_def migrateOne_def scripted_def mkStack_def
          StreamStateFromURL_def UploadStateToURL_def failed_def succeeded_def Let_def)
  with ok dry cl show ?thesis by (simp add: planOnly_def del: classifyStacks.simps)
qed


subsection \<open>C5: fail-fast manifest construction\<close>

lemma firstError_append:
  "firstError (xs @ ys) = (case firstError xs of None \<Rightarrow> firstError ys | Some f \<Rightarrow> Some f)"
  by (induction xs rule: firstError.induct) simp_all

lemma awsAttachments_first:
  "case firstError (map (\<lambda>i. (awsLabel i, errorOf (discoverAWSIntegrationAttachments env (aws_ID i)))) ints) of
     None \<Rightarrow> (\<exists>st. awsAttachments env idx ints stacks = Inr st)
   | Some (n, e) \<Rightarrow> awsAttachments env idx ints stacks = Inl (Wrap n e)"
proof (induction ints arbitrary: stacks)
  case Nil show ?case by simp
next
  case (Cons i ints)
  show ?case
  proof (cases "discoverAWSIntegrationAttachments env (aws_ID i)")
    case (Inl e)
    then have "errorOf (discoverAWSIntegrationAttachments env (aws_ID i)) = Some e"
      by (simp add: errorOf_def)
    with Inl show ?thesis by simp
  next
    case (Inr atts)
    then have "errorOf (discoverAWSIntegrationAttachments env (aws_ID i)) = None"
      by (simp add: errorOf_def)
    with Inr show ?thesis using Cons.IH[of "attachAWS idx atts stacks"] by (auto split: option.splits)
  qed
qed

lemma azureAttachments_first:
  "case firstError (map (\<lambda>i. (azureLabel i, errorOf (discoverAzureIntegrationAttachments env (azure_ID i)))) ints) of
     None \<Rightarrow> (\<exists>st. azureAttachments env idx ints stacks = Inr st)
   | Some (n, e) \<Rightarrow> azureAttachments env idx ints stacks = Inl (Wrap n e)"
proof (induction ints arbitrary: stacks)
  case Nil show ?case by simp
next
  case (Cons i ints)
  show ?case
  proof (cases "discoverAzureIntegrationAttachments env (azure_ID i)")
    case (Inl e)
    then have "errorOf (discoverAzureIntegrationAttachments env (azure_ID i)) = Some e"
      by (simp add: errorOf_def)
    with Inl show ?thesis by simp
  next
    case (Inr atts)
    then have "errorOf (discoverAzureIntegrationAttachments env (azure_ID i)) = None"
      by (simp add: errorOf_def)
    with Inr show ?thesis using Cons.IH[of "attachAzure idx atts stacks"] by (auto split: option.splits)
  qed
qed

text \<open>
  C5: the build returns a manifest iff no sub-fetch fails, and then no error. If a
  sub-fetch fails, the build returns the error of the first failing one in build order
  (spaces, contexts, policies, stacks, AWS integrations, Azure integrations, the
  attachments of each AWS integration, the attachments of each Azure integration),
  wrapped with the text naming that sub-fetch, and the manifest pointer is nil.
\<close>

theorem C5_fail_fast:
  "(firstFailure env = None \<longrightarrow> (\<exists>m. DiscoverAll env = (Some m, None))) \<and>
   (\<forall>n e. firstFailure env = Some (n, e) \<longrightarrow> DiscoverAll env = (None, Some (Wrap n e))) \<and>
   (fst (DiscoverAll env) = None \<longleftrightarrow> snd (DiscoverAll env) \<noteq> None)"
proof -
  have main: "case firstFailure env of
      None \<Rightarrow> (\<exists>m. DiscoverAll env = (Some m, None))
    | Some (n, e) \<Rightarrow> DiscoverAll env = (None, Some (Wrap n e))"
  proof (cases "discoverSpaces env")
    case Inl then show ?thesis
      by (simp add: firstFailure_def subFetches_def errorOf_def DiscoverAll_def)
  next
    case spaces: (Inr spaces)
    show ?thesis
    proof (cases "discoverContexts env")
      case Inl with spaces show ?thesis
        by (simp add: firstFailure_def subFetches_def errorOf_def DiscoverAll_def)
    next
      case contexts: (Inr contexts)
      show ?thesis
      proof (cases "discoverPolicies env")
        case Inl with spaces contexts show ?thesis
          by (simp add: firstFailure_def subFetches_def errorOf_def DiscoverAll_def)
      next
        case policies: (Inr policies)
        show ?thesis
        proof (cases "discoverStacks env")
          case Inl with spaces contexts policies show ?thesis
            by (simp add: firstFailure_def subFetches_def errorOf_def DiscoverAll_def)
        next
          case stacks: (Inr stacks)
          show ?thesis
          proof (cases "discoverAWSIntegrations env")
            case Inl with spaces contexts policies stacks show ?thesis
              by (simp add: firstFailure_def subFetches_def errorOf_def DiscoverAll_def)
          next
            case aws: (Inr aws)
            show ?thesis
            proof (cases "discoverAzureIntegrations env")
              case Inl with spaces contexts policies stacks aws show ?thesis
                by (simp add: firstFailure_def subFetches_def errorOf_def DiscoverAll_def)
            next
              case azure: (Inr azure)
              let ?fa = "firstError (map (\<lambda>i. (awsLabel i, errorOf (discoverAWSIntegrationAttachments env (aws_ID i)))) aws)"
              let ?fz = "firstError (map (\<lambda>i. (azureLabel i, errorOf (discoverAzureIntegrationAttachments env (azure_ID i)))) azure)"
              have eo: "errorOf (discoverSpaces env) = None" "errorOf (discoverContexts env) = None"
                "errorOf (discoverPolicies env) = None" "errorOf (discoverStacks env) = None"
                "errorOf (discoverAWSIntegrations env) = None" "errorOf (discoverAzureIntegrations env) = None"
                "found (discoverAWSIntegrations env) = aws" "found (discoverAzureIntegrations env) = azure"
                using spaces contexts policies stacks aws azure by (simp_all add: errorOf_def found_def)
              have ff: "firstFailure env = (case ?fa of None \<Rightarrow> ?fz | Some f \<Rightarrow> Some f)"
                by (simp add: firstFailure_def subFetches_def eo firstError_append)
              have da: "DiscoverAll env =
                 (case awsAttachments env (stackIndex stacks) aws stacks of
                    Inl e \<Rightarrow> (None, Some e)
                  | Inr stacks1 \<Rightarrow>
                     (case azureAttachments env (stackIndex stacks) azure stacks1 of
                        Inl e \<Rightarrow> (None, Some e)
                      | Inr stacks2 \<Rightarrow>
                          (Some \<lparr>SourceURL = clientURL env, Spaces = spaces, Stacks = stacks2,
                                  Contexts = contexts, Policies = policies,
                                  AWSIntegrations = aws, AzureIntegrations = azure\<rparr>, None)))"
                using spaces contexts policies stacks aws azure by (simp add: DiscoverAll_def)
              show ?thesis
              proof (cases ?fa)
                case (Some f)
                obtain n e where f: "f = (n, e)" by (cases f)
                from awsAttachments_first[where env = env and ints = aws and idx = "stackIndex stacks" and stacks = stacks] Some f
                have "awsAttachments env (stackIndex stacks) aws stacks = Inl (Wrap n e)" by simp
                with Some f show ?thesis by (simp add: ff da)
              next
                case None
                from awsAttachments_first[where env = env and ints = aws and idx = "stackIndex stacks" and stacks = stacks] None
                obtain st1 where st1: "awsAttachments env (stackIndex stacks) aws stacks = Inr st1" by auto
                show ?thesis
                proof (cases ?fz)
                  case (Some f)
                  obtain n e where f: "f = (n, e)" by (cases f)
                  from azureAttachments_first[where env = env and ints = azure and idx = "stackIndex stacks" and stacks = st1] Some f
                  have "azureAttachments env (stackIndex stacks) azure st1 = Inl (Wrap n e)" by simp
                  with None Some f st1 show ?thesis by (simp add: ff da)
                next
                  case fzN: None
                  from azureAttachments_first[where env = env and ints = azure and idx = "stackIndex stacks" and stacks = st1] fzN
                  obtain st2 where "azureAttachments env (stackIndex stacks) azure st1 = Inr st2" by auto
                  with None fzN st1 show ?thesis by (simp add: ff da)
                qed
              qed
            qed
          qed
        qed
      qed
    qed
  qed
  have a: "firstFailure env = None \<longrightarrow> (\<exists>m. DiscoverAll env = (Some m, None))"
    using main by (auto split: option.splits)
  have b: "\<forall>n e. firstFailure env = Some (n, e) \<longrightarrow> DiscoverAll env = (None, Some (Wrap n e))"
    using main by (auto split: option.splits)
  have c: "fst (DiscoverAll env) = None \<longleftrightarrow> snd (DiscoverAll env) \<noteq> None"
    using main by (cases "firstFailure env") auto
  from a b c show ?thesis by blast
qed

text \<open>
  In the broken account the first failing sub-fetch is the attachments of the AWS
  integration named two; its error comes back wrapped, with no manifest.
\<close>

theorem C5_fail_fast_witness:
  "firstFailure brokenAccount =
     Some (''failed to discover AWS integration attachments for two'', Err ''timeout'') \<and>
   DiscoverAll brokenAccount =
     (None, Some (Wrap ''failed to discover AWS integration attachments for two'' (Err ''timeout'')))"
proof -
  have ff: "firstFailure brokenAccount =
     Some (''failed to discover AWS integration attachments for two'', Err ''timeout'')"
    by (simp add: firstFailure_def subFetches_def brokenAccount_def errorOf_def found_def awsLabel_def)
  from C5_fail_fast [of brokenAccount] ff
  have "DiscoverAll brokenAccount =
     (None, Some (Wrap ''failed to discover AWS integration attachments for two'' (Err ''timeout'')))"
    by blast
  with ff show ?thesis by blast
qed


subsection \<open>The space-scoped filter: closure, walks and filtered manifests\<close>

lemma subtree_mono: "S \<subseteq> T \<Longrightarrow> subtree spaces S \<subseteq> subtree spaces T"
proof
  fix x assume "S \<subseteq> T" "x \<in> subtree spaces S"
  from this(2,1) show "x \<in> subtree spaces T"
    by (induction rule: subtree.induct) (auto intro: subtree.intros)
qed

lemma subtree_idem: "subtree spaces (subtree spaces S) = subtree spaces S"
proof
  show "subtree spaces (subtree spaces S) \<subseteq> subtree spaces S"
  proof
    fix x assume "x \<in> subtree spaces (subtree spaces S)"
    then show "x \<in> subtree spaces S"
      by (induction rule: subtree.induct) (auto intro: subtree.intros)
  qed
  show "subtree spaces S \<subseteq> subtree spaces (subtree spaces S)"
    by (auto intro: subtree.top)
qed

lemma subtree_between:
  assumes "S \<subseteq> T" "T \<subseteq> subtree spaces S"
  shows "subtree spaces T = subtree spaces S"
proof
  show "subtree spaces T \<subseteq> subtree spaces S"
    using subtree_mono[OF assms(2), of spaces] by (simp add: subtree_idem)
  show "subtree spaces S \<subseteq> subtree spaces T" using assms(1) by (rule subtree_mono)
qed

lemma subtree_closed:
  assumes "\<And>sp p. sp \<in> set spaces \<Longrightarrow> space_ParentSpace sp = Some p \<Longrightarrow> p \<in> S \<Longrightarrow> space_ID sp \<in> S"
  shows "subtree spaces S = S"
proof
  show "subtree spaces S \<subseteq> S"
  proof
    fix x assume "x \<in> subtree spaces S"
    then show "x \<in> S" by (induction rule: subtree.induct) (auto intro: assms)
  qed
  show "S \<subseteq> subtree spaces S" by (auto intro: subtree.top)
qed

lemma descendPass_within:
  "set rest \<subseteq> set spaces \<Longrightarrow> inc \<subseteq> subtree spaces S \<Longrightarrow>
     fst (descendPass rest inc changed) \<subseteq> subtree spaces S"
proof (induction rest arbitrary: inc changed)
  case Nil then show ?case by simp
next
  case (Cons sp rest)
  have rest: "set rest \<subseteq> set spaces" and sp: "sp \<in> set spaces" using Cons.prems(1) by auto
  show ?case
  proof (cases "\<exists>p. space_ParentSpace sp = Some p \<and> p \<in> inc \<and> space_ID sp \<notin> inc")
    case True
    then obtain p where p: "space_ParentSpace sp = Some p" "p \<in> inc" "space_ID sp \<notin> inc" by blast
    have "space_ID sp \<in> subtree spaces S"
      using sp p(1) p(2) Cons.prems(2) by (blast intro: subtree.child)
    then have "insert (space_ID sp) inc \<subseteq> subtree spaces S" using Cons.prems(2) by simp
    from Cons.IH[OF rest this, of True] p show ?thesis by simp
  next
    case False
    then have "descendPass (sp # rest) inc changed = descendPass rest inc changed"
      by (auto split: option.splits)
    with Cons.IH[OF rest Cons.prems(2), of changed] show ?thesis by simp
  qed
qed

lemma descendPass_unchanged:
  "\<not> snd (descendPass rest inc False) \<Longrightarrow>
     fst (descendPass rest inc False) = inc \<and>
     (\<forall>sp\<in>set rest. \<forall>p. space_ParentSpace sp = Some p \<longrightarrow> p \<in> inc \<longrightarrow> space_ID sp \<in> inc)"
proof (induction rest)
  case Nil then show ?case by simp
next
  case (Cons sp rest)
  have keep: "\<And>xs inc. snd (descendPass xs inc True)"
  proof -
    fix xs :: "Space list" and inc
    show "snd (descendPass xs inc True)"
      by (induction xs arbitrary: inc) (auto split: option.splits)
  qed
  show ?case
  proof (cases "\<exists>p. space_ParentSpace sp = Some p \<and> p \<in> inc \<and> space_ID sp \<notin> inc")
    case True
    then obtain p where p: "space_ParentSpace sp = Some p" "p \<in> inc" "space_ID sp \<notin> inc" by blast
    then have "descendPass (sp # rest) inc False = descendPass rest (insert (space_ID sp) inc) True"
      by simp
    with Cons.prems keep show ?thesis by simp
  next
    case False
    then have eq: "descendPass (sp # rest) inc False = descendPass rest inc False"
      by (auto split: option.splits)
    with Cons have "fst (descendPass rest inc False) = inc \<and>
     (\<forall>sp\<in>set rest. \<forall>p. space_ParentSpace sp = Some p \<longrightarrow> p \<in> inc \<longrightarrow> space_ID sp \<in> inc)" by simp
    with False eq show ?thesis by auto
  qed
qed

lemma descend_subtree: "descend spaces inc = subtree spaces inc"
proof (induction spaces inc rule: descend.induct)
  case (1 spaces inc)
  let ?new = "fst (descendPass spaces inc False)"
  show ?case
  proof (cases "snd (descendPass spaces inc False)")
    case True
    have a: "inc \<subseteq> ?new" by (rule descendPass_grows)
    have b: "?new \<subseteq> subtree spaces inc"
      by (rule descendPass_within) (auto intro: subtree.top)
    have "descend spaces inc = descend spaces ?new" using True by (subst descend.simps) simp
    also have "\<dots> = subtree spaces ?new" using True by (rule "1.IH")
    also have "\<dots> = subtree spaces inc" using a b by (rule subtree_between)
    finally show ?thesis .
  next
    case False
    from descendPass_unchanged[OF False] have eq: "?new = inc"
      and cl: "\<forall>sp\<in>set spaces. \<forall>p. space_ParentSpace sp = Some p \<longrightarrow> p \<in> inc \<longrightarrow> space_ID sp \<in> inc"
      by blast+
    have "descend spaces inc = inc" using False eq by (subst descend.simps) simp
    moreover have "subtree spaces inc = inc" by (rule subtree_closed) (use cl in blast)
    ultimately show ?thesis by simp
  qed
qed

lemma chain_resolved: "x \<in> chain sm t \<Longrightarrow> x \<noteq> [] \<and> x \<noteq> ''root'' \<and> sm x \<noteq> None"
  by (induction rule: chain.induct) auto

lemma chain_stop: "t = [] \<or> t = ''root'' \<or> sm t = None \<Longrightarrow> chain sm t = {}"
proof -
  assume stop: "t = [] \<or> t = ''root'' \<or> sm t = None"
  have "\<And>x. x \<in> chain sm t \<Longrightarrow> False"
  proof -
    fix x assume "x \<in> chain sm t"
    then show False using stop by (induction rule: chain.induct) auto
  qed
  then show ?thesis by blast
qed

lemma chain_top:
  assumes "t \<noteq> []" "t \<noteq> ''root''" "sm t = Some sp" "space_ParentSpace sp = None"
  shows "chain sm t = {t}"
proof -
  have "\<And>x. x \<in> chain sm t \<Longrightarrow> x = t"
  proof -
    fix x assume "x \<in> chain sm t"
    then show "x = t" using assms by (induction rule: chain.induct) auto
  qed
  moreover have "t \<in> chain sm t" using assms by (auto intro: chain.start)
  ultimately show ?thesis by blast
qed

lemma chain_step:
  assumes "t \<noteq> []" "t \<noteq> ''root''" "sm t = Some sp" "space_ParentSpace sp = Some p"
  shows "chain sm t = insert t (chain sm p)"
proof
  show "chain sm t \<subseteq> insert t (chain sm p)"
  proof
    fix x assume "x \<in> chain sm t"
    then show "x \<in> insert t (chain sm p)"
    proof (induction rule: chain.induct)
      case (start sp0) then show ?case by simp
    next
      case (up c spc q spq)
      show ?case
      proof (cases "c = t")
        case True
        with up assms have "q = p" by simp
        with up show ?thesis by (auto intro: chain.start)
      next
        case False
        with up have "c \<in> chain sm p" by simp
        with up show ?thesis by (auto intro: chain.up)
      qed
    qed
  qed
  have t: "t \<in> chain sm t" using assms by (auto intro: chain.start)
  have "\<And>x. x \<in> chain sm p \<Longrightarrow> x \<in> chain sm t"
  proof -
    fix x assume "x \<in> chain sm p"
    then show "x \<in> chain sm t"
    proof (induction rule: chain.induct)
      case (start spp)
      with t assms show ?case by (auto intro: chain.up)
    next
      case (up c spc q spq)
      then show ?case by (auto intro: chain.up)
    qed
  qed
  with t show "insert t (chain sm p) \<subseteq> chain sm t" by blast
qed

lemmas walkUp_induct = walkUp.raw_induct[rotated -1, consumes 1, case_names step]

lemmas walkAncestors_induct = walkAncestors.raw_induct[rotated -1, consumes 1, case_names step]

lemma walkUp_chain: "walkUp sm c inc = Some r \<Longrightarrow> r = inc \<union> chain sm c"
proof (induct rule: walkUp_induct)
  case (step walk sm c inc r)
  note 1 = step
  show ?case
  proof (cases "c \<noteq> [] \<and> c \<noteq> ''root''")
    case False
    with 1(2) have "r = inc" by auto
    moreover from False have "chain sm c = {}" by (intro chain_stop) blast
    ultimately show ?thesis by simp
  next
    case ok: True
    show ?thesis
    proof (cases "sm c")
      case None
      with ok 1(2) have "r = inc" by simp
      with None show ?thesis by (simp add: chain_stop)
    next
      case (Some sp)
      show ?thesis
      proof (cases "space_ParentSpace sp")
        case None
        with ok Some 1(2) have "r = insert c inc" by simp
        moreover have "chain sm c = {c}" using ok Some None by (intro chain_top) auto
        ultimately show ?thesis by simp
      next
        case (Some p)
        with ok \<open>sm c = Some sp\<close> 1(2) have "walk sm p (insert c inc) = Some r" by simp
        from 1(1)[OF this] have "r = insert c inc \<union> chain sm p" .
        moreover have "chain sm c = insert c (chain sm p)"
          using ok \<open>sm c = Some sp\<close> Some by (intro chain_step) auto
        ultimately show ?thesis by simp
      qed
    qed
  qed
qed

lemma walkAncestors_chain:
  "walkAncestors sm c st = Some r \<Longrightarrow> fst r = fst st \<union> chain sm c \<and> snd st \<subseteq> snd r"
proof (induct rule: walkAncestors_induct)
  case (step walk sm c st r)
  note 1 = step
  show ?case
  proof (cases "c \<noteq> [] \<and> c \<noteq> ''root''")
    case False
    with 1(2) have "r = st" by auto
    moreover from False have "chain sm c = {}" by (intro chain_stop) blast
    ultimately show ?thesis by simp
  next
    case ok: True
    show ?thesis
    proof (cases "sm c")
      case None
      with ok 1(2) have "r = st" by simp
      with None show ?thesis by (simp add: chain_stop)
    next
      case (Some sp)
      show ?thesis
      proof (cases "space_ParentSpace sp")
        case None
        with ok Some 1(2) have "r = (insert c (fst st), insert c (snd st))" by simp
        moreover have "chain sm c = {c}" using ok Some None by (intro chain_top) auto
        ultimately show ?thesis by auto
      next
        case (Some p)
        with ok \<open>sm c = Some sp\<close> 1(2)
        have "walk sm p (insert c (fst st), insert p (insert c (snd st))) = Some r" by simp
        from 1(1)[OF this] have "fst r = insert c (fst st) \<union> chain sm p"
          "insert p (insert c (snd st)) \<subseteq> snd r" by auto
        moreover have "chain sm c = insert c (chain sm p)"
          using ok \<open>sm c = Some sp\<close> Some by (intro chain_step) auto
        ultimately show ?thesis by auto
      qed
    qed
  qed
qed

lemma walkUp_transfer_aux:
  "walkUp sm c inc = Some r \<Longrightarrow>
     inc \<subseteq> r \<and>
     ((\<forall>k\<in>r. sm' k = sm k) \<longrightarrow> (\<forall>k. sm k = None \<longrightarrow> sm' k = None) \<longrightarrow>
        walkUp sm' c inc = Some r)"
proof (induct rule: walkUp_induct)
  case (step walk sm c inc r)
  show ?case
  proof (cases "c \<noteq> [] \<and> c \<noteq> ''root''")
    case False
    with step(2) have "r = inc" by auto
    with False show ?thesis by (subst walkUp.simps) auto
  next
    case ok: True
    show ?thesis
    proof (cases "sm c")
      case None
      with ok step(2) have "r = inc" by simp
      with ok None show ?thesis by (subst walkUp.simps) auto
    next
      case (Some sp)
      show ?thesis
      proof (cases "space_ParentSpace sp")
        case None
        with ok Some step(2) have "r = insert c inc" by simp
        with ok Some None show ?thesis by (subst walkUp.simps) auto
      next
        case (Some p)
        with ok \<open>sm c = Some sp\<close> step(2) have rec: "walk sm p (insert c inc) = Some r" by simp
        from step(1)[OF rec] have sub: "insert c inc \<subseteq> r"
          and tr: "(\<forall>k\<in>r. sm' k = sm k) \<longrightarrow> (\<forall>k. sm k = None \<longrightarrow> sm' k = None) \<longrightarrow>
                     walkUp sm' p (insert c inc) = Some r" by blast+
        have "(\<forall>k\<in>r. sm' k = sm k) \<longrightarrow> (\<forall>k. sm k = None \<longrightarrow> sm' k = None) \<longrightarrow>
                walkUp sm' c inc = Some r"
        proof (intro impI)
          assume a: "\<forall>k\<in>r. sm' k = sm k" and n: "\<forall>k. sm k = None \<longrightarrow> sm' k = None"
          from sub a have "sm' c = sm c" by blast
          with \<open>sm c = Some sp\<close> have "sm' c = Some sp" by simp
          moreover from tr a n have "walkUp sm' p (insert c inc) = Some r" by blast
          ultimately show "walkUp sm' c inc = Some r"
            using ok Some by (subst walkUp.simps) simp
        qed
        with sub show ?thesis by blast
      qed
    qed
  qed
qed

lemma walkUp_transfer:
  assumes "walkUp sm c inc = Some r" and "\<And>k. k \<in> r \<Longrightarrow> sm' k = sm k"
    and "\<And>k. sm k = None \<Longrightarrow> sm' k = None"
  shows "walkUp sm' c inc = Some r"
  using walkUp_transfer_aux[OF assms(1), of sm'] assms(2,3) by blast

lemma walkAncestors_transfer_aux:
  "walkAncestors sm c st = Some r \<Longrightarrow>
     fst st \<subseteq> fst r \<and>
     ((\<forall>k\<in>fst r. sm' k = sm k) \<longrightarrow> (\<forall>k. sm k = None \<longrightarrow> sm' k = None) \<longrightarrow>
        walkAncestors sm' c st = Some r)"
proof (induct rule: walkAncestors_induct)
  case (step walk sm c st r)
  show ?case
  proof (cases "c \<noteq> [] \<and> c \<noteq> ''root''")
    case False
    with step(2) have "r = st" by auto
    with False show ?thesis by (subst walkAncestors.simps) auto
  next
    case ok: True
    show ?thesis
    proof (cases "sm c")
      case None
      with ok step(2) have "r = st" by simp
      with ok None show ?thesis by (subst walkAncestors.simps) auto
    next
      case (Some sp)
      show ?thesis
      proof (cases "space_ParentSpace sp")
        case None
        with ok Some step(2) have "r = (insert c (fst st), insert c (snd st))" by simp
        with ok Some None show ?thesis by (subst walkAncestors.simps) auto
      next
        case (Some p)
        let ?st = "(insert c (fst st), insert p (insert c (snd st)))"
        from ok \<open>sm c = Some sp\<close> Some step(2) have rec: "walk sm p ?st = Some r" by simp
        from step(1)[OF rec] have sub: "insert c (fst st) \<subseteq> fst r"
          and tr: "(\<forall>k\<in>fst r. sm' k = sm k) \<longrightarrow> (\<forall>k. sm k = None \<longrightarrow> sm' k = None) \<longrightarrow>
                     walkAncestors sm' p ?st = Some r" by auto
        have "(\<forall>k\<in>fst r. sm' k = sm k) \<longrightarrow> (\<forall>k. sm k = None \<longrightarrow> sm' k = None) \<longrightarrow>
                walkAncestors sm' c st = Some r"
        proof (intro impI)
          assume a: "\<forall>k\<in>fst r. sm' k = sm k" and n: "\<forall>k. sm k = None \<longrightarrow> sm' k = None"
          from sub a have "sm' c = sm c" by blast
          with \<open>sm c = Some sp\<close> have "sm' c = Some sp" by simp
          moreover from tr a n have "walkAncestors sm' p ?st = Some r" by blast
          ultimately show "walkAncestors sm' c st = Some r"
            using ok Some by (subst walkAncestors.simps) simp
        qed
        with sub show ?thesis by blast
      qed
    qed
  qed
qed

lemma walkAncestors_transfer:
  assumes "walkAncestors sm c st = Some r" and "\<And>k. k \<in> fst r \<Longrightarrow> sm' k = sm k"
    and "\<And>k. sm k = None \<Longrightarrow> sm' k = None"
  shows "walkAncestors sm' c st = Some r"
  using walkAncestors_transfer_aux[OF assms(1), of sm'] assms(2,3) by blast

lemma includeOwners_grows:
  "includeOwners sm owner ks inc = Some r \<Longrightarrow> inc \<subseteq> r"
proof (induction ks arbitrary: inc)
  case Nil then show ?case by simp
next
  case (Cons k ks)
  show ?case
  proof (cases "owner k")
    case None
    with Cons show ?thesis by simp
  next
    case (Some s)
    with Cons.prems obtain inc' where w: "walkUp sm s inc = Some inc'"
      and rest: "includeOwners sm owner ks inc' = Some r"
      by (auto split: option.splits)
    from walkUp_chain[OF w] Cons.IH[OF rest] show ?thesis by blast
  qed
qed

lemma includeOwners_transfer:
  assumes "includeOwners sm owner ks inc = Some r"
    and "\<And>k. k \<in> r \<Longrightarrow> sm' k = sm k" and "\<And>k. sm k = None \<Longrightarrow> sm' k = None"
    and "\<And>k. k \<in> set ks \<Longrightarrow> owner' k = owner k"
  shows "includeOwners sm' owner' ks inc = Some r"
  using assms(1,4)
proof (induction ks arbitrary: inc)
  case Nil then show ?case by simp
next
  case (Cons k ks)
  have ow: "owner' k = owner k" using Cons.prems(2) by simp
  have rest_ow: "\<And>j. j \<in> set ks \<Longrightarrow> owner' j = owner j" using Cons.prems(2) by simp
  show ?case
  proof (cases "owner k")
    case None
    with Cons.prems(1) have "includeOwners sm owner ks inc = Some r" by simp
    from Cons.IH[OF this rest_ow] None ow show ?thesis by simp
  next
    case (Some s)
    with Cons.prems(1) obtain inc' where w: "walkUp sm s inc = Some inc'"
      and rest: "includeOwners sm owner ks inc' = Some r"
      by (auto split: option.splits)
    have "inc' \<subseteq> r" using rest by (rule includeOwners_grows)
    then have "walkUp sm' s inc = Some inc'"
      using assms(2,3) by (intro walkUp_transfer[OF w]) blast+
    with Cons.IH[OF rest rest_ow] Some ow show ?thesis by simp
  qed
qed

lemma lastWins_filter:
  "(\<forall>x\<in>set xs. key x = k \<longrightarrow> P x) \<Longrightarrow>
     foldl (\<lambda>m x. m(key x \<mapsto> val x)) Map.empty (filter P xs) k =
     foldl (\<lambda>m x. m(key x \<mapsto> val x)) Map.empty xs k"
proof (induction xs rule: rev_induct)
  case Nil show ?case by simp
next
  case (snoc x xs)
  from snoc.prems have "\<forall>x\<in>set xs. key x = k \<longrightarrow> P x" by simp
  from snoc.IH[OF this]
  have IH: "foldl (\<lambda>m x. m(key x \<mapsto> val x)) Map.empty (filter P xs) k =
     foldl (\<lambda>m x. m(key x \<mapsto> val x)) Map.empty xs k" .
  show ?case
  proof (cases "P x")
    case True
    show ?thesis
    proof (cases "key x = k")
      case same: True
      with True show ?thesis by (simp add: fun_upd_same del: fun_upd_apply)
    next
      case other: False
      then have "k \<noteq> key x" by blast
      with True IH show ?thesis by (simp add: fun_upd_other del: fun_upd_apply)
    qed
  next
    case False
    with snoc.prems have "k \<noteq> key x" by auto
    with False IH show ?thesis by (simp add: fun_upd_other del: fun_upd_apply)
  qed
qed

lemma lastWins_None:
  "foldl (\<lambda>m x. m(key x \<mapsto> val x)) Map.empty xs k = None \<longleftrightarrow> k \<notin> key ` set xs"
proof (induction xs rule: rev_induct)
  case Nil show ?case by simp
next
  case (snoc x xs)
  show ?case
  proof (cases "key x = k")
    case True
    then show ?thesis by (simp add: fun_upd_same del: fun_upd_apply)
  next
    case False
    then have "k \<noteq> key x" by blast
    with snoc show ?thesis by (simp add: fun_upd_other del: fun_upd_apply)
  qed
qed

lemma spaceByID_filter_in:
  "k \<in> I \<Longrightarrow> spaceByID (filter (\<lambda>space. space_ID space \<in> I) spaces) k = spaceByID spaces k"
  unfolding spaceByID_def
  by (rule lastWins_filter[where key = space_ID and val = "\<lambda>x. x"]) simp

lemma spaceByID_filter_none:
  "spaceByID spaces k = None \<Longrightarrow> spaceByID (filter P spaces) k = None"
  unfolding spaceByID_def lastWins_None[where key = space_ID and val = "\<lambda>x. x"] by auto

lemma contextSpaceMap_filter:
  "k \<in> R \<Longrightarrow>
     contextSpaceMap (filter (\<lambda>ctx. ctx_Space ctx \<in> I \<or> ctx_ID ctx \<in> R) contexts) k =
     contextSpaceMap contexts k"
  unfolding contextSpaceMap_def
  by (rule lastWins_filter[where key = ctx_ID and val = ctx_Space]) simp

lemma policySpaceMap_filter:
  "k \<in> R \<Longrightarrow>
     policySpaceMap (filter (\<lambda>policy. policy_Space policy \<in> I \<or> policy_ID policy \<in> R) policies) k =
     policySpaceMap policies k"
  unfolding policySpaceMap_def
  by (rule lastWins_filter[where key = policy_ID and val = policy_Space]) simp

lemma subtree_filter:
  assumes "subtree spaces S \<subseteq> I"
  shows "subtree (filter (\<lambda>space. space_ID space \<in> I) spaces) S = subtree spaces S"
proof
  show "subtree (filter (\<lambda>space. space_ID space \<in> I) spaces) S \<subseteq> subtree spaces S"
  proof
    fix x assume "x \<in> subtree (filter (\<lambda>space. space_ID space \<in> I) spaces) S"
    then show "x \<in> subtree spaces S"
      by (induction rule: subtree.induct) (auto intro: subtree.intros)
  qed
  show "subtree spaces S \<subseteq> subtree (filter (\<lambda>space. space_ID space \<in> I) spaces) S"
  proof
    fix x assume "x \<in> subtree spaces S"
    then show "x \<in> subtree (filter (\<lambda>space. space_ID space \<in> I) spaces) S"
    proof (induction rule: subtree.induct)
      case (top x) then show ?case by (rule subtree.top)
    next
      case (child sp p)
      have "space_ID sp \<in> subtree spaces S" using child(1,2,3) by (rule subtree.child)
      with assms have "space_ID sp \<in> I" by blast
      with child(1) have "sp \<in> set (filter (\<lambda>space. space_ID space \<in> I) spaces)" by simp
      from this child(2) child(4) show ?case by (rule subtree.child)
    qed
  qed
qed

lemma includedBefore_filtered:
  assumes before: "includedBefore m t = Some (D, A)" and sub: "D \<subseteq> I"
    and spaces: "Spaces m1 = filter (\<lambda>space. space_ID space \<in> I) (Spaces m)"
  shows "includedBefore m1 t = Some (D, A)"
proof -
  from before obtain inc0 where w: "walkAncestors (spaceByID (Spaces m)) t ({t}, {''root''}) = Some (inc0, A)"
    and D: "D = descend (Spaces m) inc0"
    by (auto simp: includedBefore_def split: option.splits)
  have D': "D = subtree (Spaces m) inc0" using D by (simp add: descend_subtree)
  have inc0: "inc0 \<subseteq> D" unfolding D' by (auto intro: subtree.top)
  have w1: "walkAncestors (spaceByID (Spaces m1)) t ({t}, {''root''}) = Some (inc0, A)"
  proof (rule walkAncestors_transfer[OF w])
    fix k assume "k \<in> fst (inc0, A)"
    with inc0 sub have "k \<in> I" by auto
    then show "spaceByID (Spaces m1) k = spaceByID (Spaces m) k"
      unfolding spaces by (rule spaceByID_filter_in)
  next
    fix k assume "spaceByID (Spaces m) k = None"
    then show "spaceByID (Spaces m1) k = None" unfolding spaces by (rule spaceByID_filter_none)
  qed
  have "descend (Spaces m1) inc0 = subtree (Spaces m1) inc0" by (rule descend_subtree)
  also have "\<dots> = subtree (Spaces m) inc0"
    unfolding spaces using sub D' by (intro subtree_filter) simp
  finally have "descend (Spaces m1) inc0 = D" using D' by simp
  with w1 show ?thesis by (simp add: includedBefore_def)
qed

lemma includedAfter_grows: "includedAfter m D = Some I \<Longrightarrow> D \<subseteq> I"
  by (auto simp: includedAfter_def Let_def split: option.splits dest!: includeOwners_grows)

lemma includedAfter_filtered:
  assumes after: "includedAfter m D = Some I"
    and spaces: "Spaces m1 = filter (\<lambda>space. space_ID space \<in> I) (Spaces m)"
    and stacks: "Stacks m1 = filter (\<lambda>stack. stack_Space stack \<in> D) (Stacks m)"
    and contexts: "Contexts m1 = filter (\<lambda>ctx. ctx_Space ctx \<in> I \<or>
        ctx_ID ctx \<in> set (contextIDsOf (Stacks m1))) (Contexts m)"
    and policies: "Policies m1 = filter (\<lambda>policy. policy_Space policy \<in> I \<or>
        policy_ID policy \<in> set (policyIDsOf (Stacks m1))) (Policies m)"
  shows "includedAfter m1 D = Some I"
proof -
  let ?fs = "filter (\<lambda>stack. stack_Space stack \<in> D) (Stacks m)"
  have fs1: "filter (\<lambda>stack. stack_Space stack \<in> D) (Stacks m1) = ?fs" by (simp add: stacks)
  from after obtain I' where
    c: "includeOwners (spaceByID (Spaces m)) (contextSpaceMap (Contexts m)) (contextIDsOf ?fs) D = Some I'"
    and p: "includeOwners (spaceByID (Spaces m)) (policySpaceMap (Policies m)) (policyIDsOf ?fs) I' = Some I"
    by (auto simp: includedAfter_def Let_def split: option.splits)
  have I': "I' \<subseteq> I" using p by (rule includeOwners_grows)
  have agree: "\<And>k. k \<in> I \<Longrightarrow> spaceByID (Spaces m1) k = spaceByID (Spaces m) k"
    unfolding spaces by (rule spaceByID_filter_in)
  have none: "\<And>k. spaceByID (Spaces m) k = None \<Longrightarrow> spaceByID (Spaces m1) k = None"
    unfolding spaces by (rule spaceByID_filter_none)
  have c1: "includeOwners (spaceByID (Spaces m1)) (contextSpaceMap (Contexts m1)) (contextIDsOf ?fs) D = Some I'"
  proof (rule includeOwners_transfer[OF c])
    fix k assume "k \<in> I'" with I' show "spaceByID (Spaces m1) k = spaceByID (Spaces m) k"
      by (intro agree) blast
  next
    fix k assume "spaceByID (Spaces m) k = None" then show "spaceByID (Spaces m1) k = None" by (rule none)
  next
    fix k assume "k \<in> set (contextIDsOf ?fs)"
    then show "contextSpaceMap (Contexts m1) k = contextSpaceMap (Contexts m) k"
      unfolding contexts stacks by (rule contextSpaceMap_filter)
  qed
  have p1: "includeOwners (spaceByID (Spaces m1)) (policySpaceMap (Policies m1)) (policyIDsOf ?fs) I' = Some I"
  proof (rule includeOwners_transfer[OF p])
    fix k assume "k \<in> I" then show "spaceByID (Spaces m1) k = spaceByID (Spaces m) k" by (rule agree)
  next
    fix k assume "spaceByID (Spaces m) k = None" then show "spaceByID (Spaces m1) k = None" by (rule none)
  next
    fix k assume "k \<in> set (policyIDsOf ?fs)"
    then show "policySpaceMap (Policies m1) k = policySpaceMap (Policies m) k"
      unfolding policies stacks by (rule policySpaceMap_filter)
  qed
  show ?thesis using c1 p1 by (simp add: includedAfter_def Let_def fs1)
qed

lemma filterManifestBySpace_Some:
  assumes "t \<noteq> []" and "filterManifestBySpace m t = Some m1"
  obtains D A I where "includedBefore m t = Some (D, A)" and "includedAfter m D = Some I"
    and "m1 = \<lparr>SourceURL = SourceURL m,
          Spaces = filter (\<lambda>space. space_ID space \<in> I) (Spaces m),
          Stacks = filter (\<lambda>stack. stack_Space stack \<in> D) (Stacks m),
          Contexts = filter (\<lambda>ctx. ctx_Space ctx \<in> I \<or>
                       ctx_ID ctx \<in> set (contextIDsOf (filter (\<lambda>stack. stack_Space stack \<in> D) (Stacks m))))
                     (Contexts m),
          Policies = filter (\<lambda>policy. policy_Space policy \<in> I \<or>
                       policy_ID policy \<in> set (policyIDsOf (filter (\<lambda>stack. stack_Space stack \<in> D) (Stacks m))))
                     (Policies m),
          AWSIntegrations = filter (\<lambda>integration. aws_Space integration \<in> I \<or>
                       aws_Space integration \<in> A) (AWSIntegrations m),
          AzureIntegrations = filter (\<lambda>integration. azure_Space integration \<in> I \<or>
                       azure_Space integration \<in> A) (AzureIntegrations m)\<rparr>"
  using assms
  by (auto simp: filterManifestBySpace_def Let_def split: option.splits)

subsection \<open>C9: the filter is idempotent\<close>

text \<open>
  C9: if the filter returns the manifest \<open>m1\<close> for a manifest and a target, then on \<open>m1\<close>
  and the same target it returns, and returns \<open>m1\<close> again.
\<close>

theorem C9_filter_idempotent:
  assumes "filterManifestBySpace m t = Some m1"
  shows "filterManifestBySpace m1 t = Some m1"
proof (cases "t = []")
  case True
  with assms show ?thesis by (simp add: filterManifestBySpace_def)
next
  case False
  from filterManifestBySpace_Some[OF False assms] obtain D A I where
    before: "includedBefore m t = Some (D, A)" and after: "includedAfter m D = Some I"
    and m1: "m1 = \<lparr>SourceURL = SourceURL m,
          Spaces = filter (\<lambda>space. space_ID space \<in> I) (Spaces m),
          Stacks = filter (\<lambda>stack. stack_Space stack \<in> D) (Stacks m),
          Contexts = filter (\<lambda>ctx. ctx_Space ctx \<in> I \<or>
                       ctx_ID ctx \<in> set (contextIDsOf (filter (\<lambda>stack. stack_Space stack \<in> D) (Stacks m))))
                     (Contexts m),
          Policies = filter (\<lambda>policy. policy_Space policy \<in> I \<or>
                       policy_ID policy \<in> set (policyIDsOf (filter (\<lambda>stack. stack_Space stack \<in> D) (Stacks m))))
                     (Policies m),
          AWSIntegrations = filter (\<lambda>integration. aws_Space integration \<in> I \<or>
                       aws_Space integration \<in> A) (AWSIntegrations m),
          AzureIntegrations = filter (\<lambda>integration. azure_Space integration \<in> I \<or>
                       azure_Space integration \<in> A) (AzureIntegrations m)\<rparr>"
    by blast
  have sub: "D \<subseteq> I" using after by (rule includedAfter_grows)
  have sp: "Spaces m1 = filter (\<lambda>space. space_ID space \<in> I) (Spaces m)" by (simp add: m1)
  have st: "Stacks m1 = filter (\<lambda>stack. stack_Space stack \<in> D) (Stacks m)" by (simp add: m1)
  have cx: "Contexts m1 = filter (\<lambda>ctx. ctx_Space ctx \<in> I \<or>
        ctx_ID ctx \<in> set (contextIDsOf (Stacks m1))) (Contexts m)" by (simp add: m1)
  have po: "Policies m1 = filter (\<lambda>policy. policy_Space policy \<in> I \<or>
        policy_ID policy \<in> set (policyIDsOf (Stacks m1))) (Policies m)" by (simp add: m1)
  have before1: "includedBefore m1 t = Some (D, A)"
    using before sub sp by (rule includedBefore_filtered)
  have after1: "includedAfter m1 D = Some I"
    using after sp st cx po by (rule includedAfter_filtered)
  have again: "filter (\<lambda>stack. stack_Space stack \<in> D) (Stacks m1) = Stacks m1"
    by (simp add: st)
  have "filterManifestBySpace m1 t =
      Some \<lparr>SourceURL = SourceURL m1,
          Spaces = filter (\<lambda>space. space_ID space \<in> I) (Spaces m1),
          Stacks = Stacks m1,
          Contexts = filter (\<lambda>ctx. ctx_Space ctx \<in> I \<or> ctx_ID ctx \<in> set (contextIDsOf (Stacks m1)))
                     (Contexts m1),
          Policies = filter (\<lambda>policy. policy_Space policy \<in> I \<or>
                       policy_ID policy \<in> set (policyIDsOf (Stacks m1))) (Policies m1),
          AWSIntegrations = filter (\<lambda>integration. aws_Space integration \<in> I \<or>
                       aws_Space integration \<in> A) (AWSIntegrations m1),
          AzureIntegrations = filter (\<lambda>integration. azure_Space integration \<in> I \<or>
                       azure_Space integration \<in> A) (AzureIntegrations m1)\<rparr>"
    using False before1 after1 by (simp add: filterManifestBySpace_def Let_def again)
  also have "\<dots> = Some m1"
    unfolding sp cx po by (simp add: m1)
  finally show ?thesis .
qed

lemma crossRef_filtered: "filterManifestBySpace crossRef ''infra-prod'' = Some crossRefFiltered"
  by (simp add: filterManifestBySpace_def includedBefore_def includedAfter_def crossRef_def
        crossRefFiltered_def mkSpace_def mkStack_def spaceByID_def contextSpaceMap_def policySpaceMap_def
        walkAncestors.simps walkUp.simps descend.simps contextIDsOf_def policyIDsOf_def)

text \<open>Filtering the cross-reference manifest by infra-prod, and filtering the result again.\<close>

theorem C9_filter_idempotent_witness:
  "filterManifestBySpace crossRef ''infra-prod'' = Some crossRefFiltered \<and>
   filterManifestBySpace crossRefFiltered ''infra-prod'' = Some crossRefFiltered"
  using C9_filter_idempotent [OF crossRef_filtered] crossRef_filtered by simp

subsection \<open>C1: the included spaces\<close>

lemma includedBefore_subtree:
  assumes "includedBefore m t = Some (D, A)"
  shows "D = subtree (Spaces m) (insert t (chain (spaceByID (Spaces m)) t))"
proof -
  from assms obtain inc0 where w: "walkAncestors (spaceByID (Spaces m)) t ({t}, {''root''}) = Some (inc0, A)"
    and D: "D = descend (Spaces m) inc0"
    by (auto simp: includedBefore_def split: option.splits)
  from walkAncestors_chain[OF w] have "inc0 = insert t (chain (spaceByID (Spaces m)) t)" by simp
  with D show ?thesis by (simp add: descend_subtree)
qed

lemma includeOwners_chain:
  "includeOwners sm owner ks inc = Some r \<Longrightarrow>
     r = inc \<union> \<Union>{chain sm s | k s. k \<in> set ks \<and> owner k = Some s}"
proof (induction ks arbitrary: inc)
  case Nil then show ?case by simp
next
  case (Cons k ks)
  show ?case
  proof (cases "owner k")
    case None
    with Cons.prems have "includeOwners sm owner ks inc = Some r" by simp
    from Cons.IH[OF this] have "r = inc \<union> \<Union>{chain sm s | j s. j \<in> set ks \<and> owner j = Some s}" .
    moreover have "{chain sm s | j s. j \<in> set (k # ks) \<and> owner j = Some s} =
        {chain sm s | j s. j \<in> set ks \<and> owner j = Some s}"
      using None by auto
    ultimately show ?thesis by simp
  next
    case (Some s)
    with Cons.prems obtain inc' where w: "walkUp sm s inc = Some inc'"
      and rest: "includeOwners sm owner ks inc' = Some r"
      by (auto split: option.splits)
    from walkUp_chain[OF w] have inc': "inc' = inc \<union> chain sm s" .
    from Cons.IH[OF rest] have r: "r = inc' \<union> \<Union>{chain sm s | j s. j \<in> set ks \<and> owner j = Some s}" .
    have "{chain sm s | j s. j \<in> set (k # ks) \<and> owner j = Some s} =
        insert (chain sm s) {chain sm s | j s. j \<in> set ks \<and> owner j = Some s}"
      using Some by auto
    with r inc' show ?thesis by auto
  qed
qed

lemma includedAfter_chain:
  assumes "includedAfter m D = Some I"
  shows "I = D \<union>
     \<Union>{chain (spaceByID (Spaces m)) s | k s.
          k \<in> set (contextIDsOf (filter (\<lambda>stack. stack_Space stack \<in> D) (Stacks m))) \<and>
          contextSpaceMap (Contexts m) k = Some s} \<union>
     \<Union>{chain (spaceByID (Spaces m)) s | k s.
          k \<in> set (policyIDsOf (filter (\<lambda>stack. stack_Space stack \<in> D) (Stacks m))) \<and>
          policySpaceMap (Policies m) k = Some s}"
proof -
  let ?fs = "filter (\<lambda>stack. stack_Space stack \<in> D) (Stacks m)"
  from assms obtain I' where
    c: "includeOwners (spaceByID (Spaces m)) (contextSpaceMap (Contexts m)) (contextIDsOf ?fs) D = Some I'"
    and p: "includeOwners (spaceByID (Spaces m)) (policySpaceMap (Policies m)) (policyIDsOf ?fs) I' = Some I"
    by (auto simp: includedAfter_def Let_def split: option.splits)
  from includeOwners_chain[OF c] includeOwners_chain[OF p] show ?thesis by simp
qed

lemma root_in_subtree:
  assumes "''root'' \<in> subtree spaces S"
  shows "''root'' \<in> S \<or> (\<exists>sp\<in>set spaces. space_ID sp = ''root'' \<and> space_ParentSpace sp \<noteq> None)"
  using assms by (cases rule: subtree.cases) auto

text \<open>
  C1 as stated fails on its own scenario: filtering root, infra, infra-prod by
  infra-prod gives the spaces infra and infra-prod; root is in the manifest and is an
  ancestor of the target, and it is not in the output.
\<close>

theorem C1_root_counterexample:
  "map space_ID (Spaces scenario) = [''root'', ''infra'', ''infra-prod''] \<and>
   map_option (\<lambda>m. map space_ID (Spaces m)) (filterManifestBySpace scenario ''infra-prod'') =
     Some [''infra'', ''infra-prod'']"
  by (simp add: filterManifestBySpace_def includedBefore_def includedAfter_def scenario_def
        mkSpace_def mkStack_def spaceByID_def contextSpaceMap_def policySpaceMap_def
        walkAncestors.simps walkUp.simps descend.simps contextIDsOf_def policyIDsOf_def)

text \<open>
  C1, amended. Let the filter return \<open>m'\<close> for a manifest and a non-empty target. Then
  there are the set \<open>D\<close> (included when the stacks are filtered) and the set \<open>I\<close>
  (included at the end) such that: a space is in the output iff its id is in \<open>I\<close>, and
  a stack is in the output iff its owning space is in \<open>D\<close>; \<open>D\<close> contains the target,
  the ancestor chain of the target up to and not including \<open>root\<close>, and every
  descendant of the target; \<open>D\<close> contains nothing outside the subtrees of the target
  and of the spaces on that chain; \<open>I\<close> is \<open>D\<close> extended by exactly the ancestor chains
  (again without \<open>root\<close>) of the spaces owning the contexts and policies attached to
  the output stacks; and \<open>root\<close> is in \<open>I\<close> only if it is the target or a space with
  the id \<open>root\<close> has a parent.
\<close>

theorem C1_included_spaces:
  assumes "spaceID \<noteq> []" and "filterManifestBySpace m spaceID = Some m'"
  shows "\<exists>D A I.
     includedBefore m spaceID = Some (D, A) \<and> includedAfter m D = Some I \<and>
     Spaces m' = filter (\<lambda>space. space_ID space \<in> I) (Spaces m) \<and>
     Stacks m' = filter (\<lambda>stack. stack_Space stack \<in> D) (Stacks m) \<and>
     insert spaceID (chain (spaceByID (Spaces m)) spaceID) \<subseteq> D \<and>
     subtree (Spaces m) {spaceID} \<subseteq> D \<and>
     D \<subseteq> subtree (Spaces m) (insert spaceID (chain (spaceByID (Spaces m)) spaceID)) \<and>
     I = D \<union> ownerChains m (Stacks m') \<and>
     (''root'' \<in> I \<longrightarrow>
        spaceID = ''root'' \<or> (\<exists>sp\<in>set (Spaces m). space_ID sp = ''root'' \<and> space_ParentSpace sp \<noteq> None))"
proof -
  from filterManifestBySpace_Some[OF assms] obtain D A I where
    before: "includedBefore m spaceID = Some (D, A)" and after: "includedAfter m D = Some I"
    and m': "m' = \<lparr>SourceURL = SourceURL m,
          Spaces = filter (\<lambda>space. space_ID space \<in> I) (Spaces m),
          Stacks = filter (\<lambda>stack. stack_Space stack \<in> D) (Stacks m),
          Contexts = filter (\<lambda>ctx. ctx_Space ctx \<in> I \<or>
                       ctx_ID ctx \<in> set (contextIDsOf (filter (\<lambda>stack. stack_Space stack \<in> D) (Stacks m))))
                     (Contexts m),
          Policies = filter (\<lambda>policy. policy_Space policy \<in> I \<or>
                       policy_ID policy \<in> set (policyIDsOf (filter (\<lambda>stack. stack_Space stack \<in> D) (Stacks m))))
                     (Policies m),
          AWSIntegrations = filter (\<lambda>integration. aws_Space integration \<in> I \<or>
                       aws_Space integration \<in> A) (AWSIntegrations m),
          AzureIntegrations = filter (\<lambda>integration. azure_Space integration \<in> I \<or>
                       azure_Space integration \<in> A) (AzureIntegrations m)\<rparr>"
    by blast
  let ?sm = "spaceByID (Spaces m)"
  let ?S = "insert spaceID (chain ?sm spaceID)"
  have D: "D = subtree (Spaces m) ?S" using before by (rule includedBefore_subtree)
  have sp: "Spaces m' = filter (\<lambda>space. space_ID space \<in> I) (Spaces m)" by (simp add: m')
  have st: "Stacks m' = filter (\<lambda>stack. stack_Space stack \<in> D) (Stacks m)" by (simp add: m')
  have low1: "?S \<subseteq> D" unfolding D by (auto intro: subtree.top)
  have low2: "subtree (Spaces m) {spaceID} \<subseteq> D" unfolding D by (rule subtree_mono) simp
  have up: "D \<subseteq> subtree (Spaces m) ?S" unfolding D by simp
  have I: "I = D \<union> ownerChains m (Stacks m')"
    using includedAfter_chain[OF after] unfolding ownerChains_def st by blast
  have root: "''root'' \<in> I \<longrightarrow>
        spaceID = ''root'' \<or> (\<exists>sp\<in>set (Spaces m). space_ID sp = ''root'' \<and> space_ParentSpace sp \<noteq> None)"
  proof
    assume "''root'' \<in> I"
    moreover have "''root'' \<notin> ownerChains m (Stacks m')"
      unfolding ownerChains_def using chain_resolved[of "''root''" ?sm] by blast
    ultimately have "''root'' \<in> subtree (Spaces m) ?S" using I D by blast
    from root_in_subtree[OF this] chain_resolved[of "''root''" ?sm spaceID]
    show "spaceID = ''root'' \<or> (\<exists>sp\<in>set (Spaces m). space_ID sp = ''root'' \<and> space_ParentSpace sp \<noteq> None)"
      by blast
  qed
  from before after sp st low1 low2 up I root show ?thesis by blast
qed

text \<open>
  In the cross-reference manifest, filtered by infra-prod: the sets exist, and the
  output is the expected manifest, whose spaces are infra, infra-prod and shared.
\<close>

theorem C1_included_spaces_witness:
  "''infra-prod'' \<noteq> [] \<and>
   filterManifestBySpace crossRef ''infra-prod'' = Some crossRefFiltered \<and>
   map space_ID (Spaces crossRefFiltered) = [''infra'', ''infra-prod'', ''shared''] \<and>
   (\<exists>D A I.
     includedBefore crossRef ''infra-prod'' = Some (D, A) \<and> includedAfter crossRef D = Some I \<and>
     Spaces crossRefFiltered = filter (\<lambda>space. space_ID space \<in> I) (Spaces crossRef) \<and>
     Stacks crossRefFiltered = filter (\<lambda>stack. stack_Space stack \<in> D) (Stacks crossRef) \<and>
     subtree (Spaces crossRef) {''infra-prod''} \<subseteq> D \<and>
     I = D \<union> ownerChains crossRef (Stacks crossRefFiltered))"
proof -
  have ne: "''infra-prod'' \<noteq> []" by simp
  have ids: "map space_ID (Spaces crossRefFiltered) = [''infra'', ''infra-prod'', ''shared'']"
    by (simp add: crossRefFiltered_def mkSpace_def)
  from C1_included_spaces [OF ne crossRef_filtered]
  have "\<exists>D A I.
     includedBefore crossRef ''infra-prod'' = Some (D, A) \<and> includedAfter crossRef D = Some I \<and>
     Spaces crossRefFiltered = filter (\<lambda>space. space_ID space \<in> I) (Spaces crossRef) \<and>
     Stacks crossRefFiltered = filter (\<lambda>stack. stack_Space stack \<in> D) (Stacks crossRef) \<and>
     subtree (Spaces crossRef) {''infra-prod''} \<subseteq> D \<and>
     I = D \<union> ownerChains crossRef (Stacks crossRefFiltered)"
    by blast
  with ne ids crossRef_filtered show ?thesis by blast
qed

text \<open>
  The descendants of a non-root ancestor of the target are included as well: with the
  space infra-dev beside infra-prod, filtering by infra-prod keeps infra-dev and its
  stack. The doc comment of the function promises only the space, its ancestors and
  its descendants.
\<close>

lemma sibling_is_included:
  "map_option (\<lambda>m. (map space_ID (Spaces m), map stack_ID (Stacks m)))
     (filterManifestBySpace withSibling ''infra-prod'') =
     Some ([''infra'', ''infra-prod'', ''infra-dev''], [''s1'', ''s2''])"
  by (simp add: filterManifestBySpace_def includedBefore_def includedAfter_def scenario_def withSibling_def
        mkSpace_def mkStack_def spaceByID_def contextSpaceMap_def policySpaceMap_def
        walkAncestors.simps walkUp.simps descend.simps contextIDsOf_def policyIDsOf_def)

subsection \<open>C10: the space filter of the state commands\<close>

lemma candidates_selected:
  "c \<in> set (candidates (classifyStacks (destStackMap ds) ss noStacks)) \<Longrightarrow> Source c \<in> set ss"
proof -
  assume "c \<in> set (candidates (classifyStacks (destStackMap ds) ss noStacks))"
  then have "c \<in> set (concat (map (candidateOf ds) ss))"
    by (simp add: classifyStacks_acc noStacks_def)
  then obtain s where "s \<in> set ss" "c \<in> set (candidateOf ds s)" by auto
  then show ?thesis by (auto simp: candidateOf_def split: disposition.splits)
qed

lemma subtree_stacks_kept:
  assumes "t \<noteq> []" "filterManifestBySpace m t = Some m'"
    and "s \<in> set (Stacks m)" "stack_Space s \<in> subtree (Spaces m) {t}"
  shows "s \<in> set (Stacks m')"
proof -
  from filterManifestBySpace_Some[OF assms(1,2)] obtain D A I where
    before: "includedBefore m t = Some (D, A)"
    and m': "m' = \<lparr>SourceURL = SourceURL m,
          Spaces = filter (\<lambda>space. space_ID space \<in> I) (Spaces m),
          Stacks = filter (\<lambda>stack. stack_Space stack \<in> D) (Stacks m),
          Contexts = filter (\<lambda>ctx. ctx_Space ctx \<in> I \<or>
                       ctx_ID ctx \<in> set (contextIDsOf (filter (\<lambda>stack. stack_Space stack \<in> D) (Stacks m))))
                     (Contexts m),
          Policies = filter (\<lambda>policy. policy_Space policy \<in> I \<or>
                       policy_ID policy \<in> set (policyIDsOf (filter (\<lambda>stack. stack_Space stack \<in> D) (Stacks m))))
                     (Policies m),
          AWSIntegrations = filter (\<lambda>integration. aws_Space integration \<in> I \<or>
                       aws_Space integration \<in> A) (AWSIntegrations m),
          AzureIntegrations = filter (\<lambda>integration. azure_Space integration \<in> I \<or>
                       azure_Space integration \<in> A) (AzureIntegrations m)\<rparr>"
    by blast
  have st: "Stacks m' = filter (\<lambda>stack. stack_Space stack \<in> D) (Stacks m)" by (simp add: m')
  have "subtree (Spaces m) {t} \<subseteq> D"
    unfolding includedBefore_subtree[OF before] by (rule subtree_mono) simp
  with assms(3,4) show ?thesis unfolding st by auto
qed

text \<open>
  C10: let the space filter of a state command resolve to the non-empty space id
  \<open>sid\<close>. Then \<open>state migrate\<close> classifies exactly the source stacks whose owning
  space is \<open>sid\<close>, every candidate of its plan lives in \<open>sid\<close>, and \<open>state plan\<close>
  reports exactly on these stacks; a stack in any other space, a strict descendant of
  \<open>sid\<close> included, is not among them. The generate-side filter, where it returns,
  keeps every stack whose space lies in the subtree of the target.
\<close>

theorem C10_state_filter_exact_space:
  assumes ok: "setupOK env flt sid ss ds" and flt: "flt \<noteq> []" and sid: "sid \<noteq> []"
    and svc: "createDiscoveryService penv = None" and pst: "planStacks penv = Inr ss"
    and psp: "resolveSpaceFilter (planSpaces penv) flt = Inr (sid, nm)"
  shows "rep_plan (runStateMigrate env dryRun flt) =
           Some (classifyStacks (destStackMap ds) (filter (\<lambda>s. stack_Space s = sid) ss) noStacks) \<and>
         (\<forall>c\<in>set (candidates (classifyStacks (destStackMap ds)
                    (filter (\<lambda>s. stack_Space s = sid) ss) noStacks)). stack_Space (Source c) = sid) \<and>
         runStatePlan penv flt = Inr (planOf (filter (\<lambda>s. stack_Space s = sid) ss)) \<and>
         (\<forall>s. stack_Space s \<noteq> sid \<longrightarrow> s \<notin> set (filter (\<lambda>s. stack_Space s = sid) ss)) \<and>
         (\<forall>m m' s. filterManifestBySpace m sid = Some m' \<and> s \<in> set (Stacks m) \<and>
              stack_Space s \<in> subtree (Spaces m) {sid} \<longrightarrow> s \<in> set (Stacks m'))"
proof -
  let ?sel = "filter (\<lambda>s. stack_Space s = sid) ss"
  let ?p = "classifyStacks (destStackMap ds) ?sel noStacks"
  have sel: "(if sid \<noteq> [] then stacksOfSpace sid ss else ss) = ?sel"
    using sid by (simp add: stacksOfSpace_def)
  have run: "runStateMigrate env dryRun flt =
      (if candidates ?p = [] \<or> dryRun then planOnly ?p else performMigration (transfer env) ?p)"
    using runStateMigrate_reached[OF ok, of dryRun] unfolding sel .
  have a: "rep_plan (runStateMigrate env dryRun flt) = Some ?p"
    unfolding run by (simp add: planOnly_def performMigration_def Let_def)
  have b: "\<forall>c\<in>set (candidates ?p). stack_Space (Source c) = sid"
  proof
    fix c assume "c \<in> set (candidates ?p)"
    then have "Source c \<in> set ?sel" by (rule candidates_selected)
    then show "stack_Space (Source c) = sid" by simp
  qed
  have c: "runStatePlan penv flt = Inr (planOf ?sel)"
    using svc pst psp flt by (simp add: runStatePlan_def stacksOfSpace_def)
  have d: "\<forall>s. stack_Space s \<noteq> sid \<longrightarrow> s \<notin> set ?sel" by simp
  have e: "\<forall>m m' s. filterManifestBySpace m sid = Some m' \<and> s \<in> set (Stacks m) \<and>
              stack_Space s \<in> subtree (Spaces m) {sid} \<longrightarrow> s \<in> set (Stacks m')"
    using subtree_stacks_kept[OF sid] by blast
  from a b c d e show ?thesis by blast
qed

lemma scenario_resolves:
  "resolveSpaceFilter (Inr (Spaces scenario)) ''infra'' = Inr (''infra'', ''infra'')"
  by (simp add: resolveSpaceFilter_def scenario_def spaceByID_def mkSpace_def)

lemma scenario_generate:
  "map_option (\<lambda>m. map stack_ID (Stacks m)) (filterManifestBySpace scenario ''infra'') = Some [''s1'']"
  by (simp add: filterManifestBySpace_def includedBefore_def includedAfter_def scenario_def
        mkSpace_def mkStack_def spaceByID_def contextSpaceMap_def policySpaceMap_def
        walkAncestors.simps walkUp.simps descend.simps contextIDsOf_def policyIDsOf_def)

text \<open>
  The scenario with the filter infra: the stack s1 lives in infra-prod, below infra.
  The state commands select no stack; the generate-side filter keeps s1.
\<close>

theorem C10_state_filter_exact_space_witness:
  "setupOK (demoEnv (\<lambda>x. False) (Stacks scenario) []) ''infra'' ''infra'' (Stacks scenario) [] \<and>
   ''infra'' \<noteq> [] \<and>
   createDiscoveryService scenarioPlanEnv = None \<and>
   planStacks scenarioPlanEnv = Inr (Stacks scenario) \<and>
   resolveSpaceFilter (planSpaces scenarioPlanEnv) ''infra'' = Inr (''infra'', ''infra'') \<and>
   map stack_Space (Stacks scenario) = [''infra-prod''] \<and>
   rep_plan (runStateMigrate (demoEnv (\<lambda>x. False) (Stacks scenario) []) False ''infra'') = Some noStacks \<and>
   runStatePlan scenarioPlanEnv ''infra'' = Inr (planOf []) \<and>
   map_option (\<lambda>m. map stack_ID (Stacks m)) (filterManifestBySpace scenario ''infra'') = Some [''s1'']"
proof -
  let ?env = "demoEnv (\<lambda>x. False) (Stacks scenario) []"
  have spaces: "sourceSpaces ?env = Inr (Spaces scenario)"
    by (simp add: demoEnv_def scenario_def)
  have ok: "setupOK ?env ''infra'' ''infra'' (Stacks scenario) []"
    unfolding setupOK_def spaces scenario_resolves by (simp add: demoEnv_def)
  have ne: "''infra'' \<noteq> []" by simp
  have svc: "createDiscoveryService scenarioPlanEnv = None"
    and pst: "planStacks scenarioPlanEnv = Inr (Stacks scenario)"
    by (simp_all add: scenarioPlanEnv_def)
  have psp: "resolveSpaceFilter (planSpaces scenarioPlanEnv) ''infra'' = Inr (''infra'', ''infra'')"
    using scenario_resolves by (simp add: scenarioPlanEnv_def)
  have where_s1: "map stack_Space (Stacks scenario) = [''infra-prod'']"
    by (simp add: scenario_def mkStack_def)
  have none: "filter (\<lambda>s. stack_Space s = ''infra'') (Stacks scenario) = []"
    by (simp add: scenario_def mkStack_def)
  from C10_state_filter_exact_space [OF ok ne ne svc pst psp, of False]
  have "rep_plan (runStateMigrate ?env False ''infra'') = Some noStacks \<and>
        runStatePlan scenarioPlanEnv ''infra'' = Inr (planOf [])"
    unfolding none by simp
  with ok ne svc pst psp where_s1 scenario_generate show ?thesis by blast
qed

subsection \<open>The space-scoped filter: order of the owner walks, and termination\<close>

text \<open>
  Whether a walk up returns does not depend on the set it starts with, so the order in
  which the owners of the attached contexts and policies are visited (unspecified in
  the Go code, which ranges over a map) changes neither whether the filter returns nor
  what it returns.
\<close>

lemma walkUp_any_start:
  "walkUp sm c inc = Some r \<Longrightarrow> (\<forall>inc'. \<exists>r'. walkUp sm c inc' = Some r')"
proof (induct rule: walkUp_induct)
  case (step walk sm c inc r)
  show ?case
  proof (cases "c \<noteq> [] \<and> c \<noteq> ''root''")
    case False
    then show ?thesis by (subst walkUp.simps) auto
  next
    case ok: True
    show ?thesis
    proof (cases "sm c")
      case None
      with ok show ?thesis by (subst walkUp.simps) auto
    next
      case (Some sp)
      show ?thesis
      proof (cases "space_ParentSpace sp")
        case None
        with ok Some show ?thesis by (subst walkUp.simps) auto
      next
        case (Some p)
        with ok \<open>sm c = Some sp\<close> step(2) have "walk sm p (insert c inc) = Some r" by simp
        from step(1)[OF this] have "\<forall>inc'. \<exists>r'. walkUp sm p inc' = Some r'" .
        with ok \<open>sm c = Some sp\<close> Some show ?thesis by (subst walkUp.simps) auto
      qed
    qed
  qed
qed

lemma includeOwners_returns_iff:
  "(\<exists>r. includeOwners sm owner ks inc = Some r) \<longleftrightarrow>
   (\<forall>k\<in>set ks. \<forall>s. owner k = Some s \<longrightarrow> (\<exists>r. walkUp sm s {} = Some r))"
proof (induction ks arbitrary: inc)
  case Nil show ?case by simp
next
  case (Cons k ks)
  show ?case
  proof (cases "owner k")
    case None
    with Cons.IH[of inc] show ?thesis by simp
  next
    case (Some s)
    show ?thesis
    proof (cases "walkUp sm s inc")
      case None
      have "walkUp sm s {} = None"
      proof (rule ccontr)
        assume "walkUp sm s {} \<noteq> None"
        then obtain r where "walkUp sm s {} = Some r" by blast
        from walkUp_any_start[OF this] obtain r' where "walkUp sm s inc = Some r'" by blast
        with None show False by simp
      qed
      with Some None show ?thesis by auto
    next
      case inc': (Some inc')
      from walkUp_any_start[OF inc'] have "\<exists>r. walkUp sm s {} = Some r" by blast
      with Some inc' Cons.IH[of inc'] show ?thesis by auto
    qed
  qed
qed

lemma includeOwners_any_order:
  assumes "set ks = set ks'" and "includeOwners sm owner ks inc = Some r"
  shows "includeOwners sm owner ks' inc = Some r"
proof -
  from assms(2) have "\<exists>r. includeOwners sm owner ks inc = Some r" by blast
  then have "\<exists>r. includeOwners sm owner ks' inc = Some r"
    unfolding includeOwners_returns_iff assms(1) .
  then obtain r' where r': "includeOwners sm owner ks' inc = Some r'" by blast
  from includeOwners_chain[OF assms(2)] includeOwners_chain[OF r'] assms(1)
  have "r' = r" by simp
  with r' show ?thesis by simp
qed

text \<open>
  The filter returns on every manifest whose parent pointers, as the space map resolves
  them, have no cycle.
\<close>

lemma walkUp_returns:
  assumes "wf {(p, c). \<exists>sp. sm c = Some sp \<and> space_ParentSpace sp = Some p}"
  shows "\<exists>r. walkUp sm c inc = Some r"
  using assms
proof (induction c arbitrary: inc rule: wf_induct_rule)
  case (less c)
  show ?case
  proof (cases "c \<noteq> [] \<and> c \<noteq> ''root''")
    case False
    then show ?thesis by (subst walkUp.simps) auto
  next
    case ok: True
    show ?thesis
    proof (cases "sm c")
      case None
      with ok show ?thesis by (subst walkUp.simps) auto
    next
      case (Some sp)
      show ?thesis
      proof (cases "space_ParentSpace sp")
        case None
        with ok Some show ?thesis by (subst walkUp.simps) auto
      next
        case (Some p)
        with \<open>sm c = Some sp\<close>
        have "(p, c) \<in> {(p, c). \<exists>sp. sm c = Some sp \<and> space_ParentSpace sp = Some p}" by blast
        from less.IH[OF this, of "insert c inc"] obtain r where "walkUp sm p (insert c inc) = Some r"
          by blast
        with ok \<open>sm c = Some sp\<close> Some show ?thesis by (subst walkUp.simps) auto
      qed
    qed
  qed
qed

lemma walkAncestors_returns:
  assumes "wf {(p, c). \<exists>sp. sm c = Some sp \<and> space_ParentSpace sp = Some p}"
  shows "\<exists>r. walkAncestors sm c st = Some r"
  using assms
proof (induction c arbitrary: st rule: wf_induct_rule)
  case (less c)
  show ?case
  proof (cases "c \<noteq> [] \<and> c \<noteq> ''root''")
    case False
    then show ?thesis by (subst walkAncestors.simps) auto
  next
    case ok: True
    show ?thesis
    proof (cases "sm c")
      case None
      with ok show ?thesis by (subst walkAncestors.simps) auto
    next
      case (Some sp)
      show ?thesis
      proof (cases "space_ParentSpace sp")
        case None
        with ok Some show ?thesis by (subst walkAncestors.simps) auto
      next
        case (Some p)
        with \<open>sm c = Some sp\<close>
        have "(p, c) \<in> {(p, c). \<exists>sp. sm c = Some sp \<and> space_ParentSpace sp = Some p}" by blast
        from less.IH[OF this, of "(insert c (fst st), insert p (insert c (snd st)))"]
        obtain r where "walkAncestors sm p (insert c (fst st), insert p (insert c (snd st))) = Some r"
          by blast
        with ok \<open>sm c = Some sp\<close> Some show ?thesis by (subst walkAncestors.simps) auto
      qed
    qed
  qed
qed

lemma filterManifestBySpace_returns:
  assumes "wf {(p, c). \<exists>sp. spaceByID (Spaces m) c = Some sp \<and> space_ParentSpace sp = Some p}"
  shows "\<exists>m'. filterManifestBySpace m t = Some m'"
proof (cases "t = []")
  case True
  then show ?thesis by (simp add: filterManifestBySpace_def)
next
  case False
  let ?sm = "spaceByID (Spaces m)"
  from walkAncestors_returns[OF assms] obtain inc0 A where
    "walkAncestors ?sm t ({t}, {''root''}) = Some (inc0, A)" by (metis surj_pair)
  then have before: "includedBefore m t = Some (descend (Spaces m) inc0, A)"
    by (simp add: includedBefore_def)
  let ?D = "descend (Spaces m) inc0"
  let ?fs = "filter (\<lambda>stack. stack_Space stack \<in> ?D) (Stacks m)"
  have all: "\<And>owner ks inc. \<exists>r. includeOwners ?sm owner ks inc = Some r"
    unfolding includeOwners_returns_iff using walkUp_returns[OF assms] by blast
  from all obtain I' where c: "includeOwners ?sm (contextSpaceMap (Contexts m)) (contextIDsOf ?fs) ?D = Some I'"
    by blast
  from all obtain I where p: "includeOwners ?sm (policySpaceMap (Policies m)) (policyIDsOf ?fs) I' = Some I"
    by blast
  have after: "includedAfter m ?D = Some I" using c p by (simp add: includedAfter_def Let_def)
  show ?thesis using False before after by (simp add: filterManifestBySpace_def Let_def)
qed

end
